theory Spec2Isabelle
  imports Main "HOL-Library.Sublist" "HOL-Library.AList"
begin

section \<open>Argument synthesis of the output-channel task manager\<close>

text \<open>
  \<^verbatim>\<open>OutputChannelTaskManager.startTask\<close> (output_channel_task_manager.ts) rewrites
  its \<^verbatim>\<open>args\<close> and \<^verbatim>\<open>cwd\<close> parameters before it constructs the task. The two
  local helper functions are embedded under their own names. \<^verbatim>\<open>join\<close> is the
  function of Node's \<^verbatim>\<open>path\<close> module and is taken as a parameter; the configured
  working directory \<^verbatim>\<open>getCargoCwd()\<close> is \<^verbatim>\<open>string | undefined\<close>, here an option.
\<close>

definition prependArgsWithMessageFormatIfRequired ::
    "bool \<Rightarrow> string \<Rightarrow> string list \<Rightarrow> string list" where
  "prependArgsWithMessageFormatIfRequired parseOutput command args =
     (if \<not> parseOutput then args
      else if command = ''build'' \<or> command = ''check'' \<or> command = ''clippy''
              \<or> command = ''test'' \<or> command = ''run''
           then [''--message-format'', ''json''] @ args
           else args)"

definition prependArgsWithManifestPathIfRequired ::
    "(string \<Rightarrow> string \<Rightarrow> string) \<Rightarrow> string option \<Rightarrow> string \<Rightarrow> string list \<Rightarrow> string list" where
  "prependArgsWithManifestPathIfRequired join cargoCwd cwd args =
     (if cargoCwd = None \<or> cargoCwd = Some cwd then args
      else [''--manifest-path'', join cwd ''Cargo.toml''] @ args)"

text \<open>
  The pair returned is what \<^verbatim>\<open>startTask\<close> hands to \<^verbatim>\<open>new Task(.., args, cwd)\<close>:
  the synthesized argument list and the directory the task runs in.
\<close>

definition startTask ::
    "(string \<Rightarrow> string \<Rightarrow> string) \<Rightarrow> string option \<Rightarrow>
     string \<Rightarrow> string list \<Rightarrow> string \<Rightarrow> bool \<Rightarrow> string list \<times> string" where
  "startTask join cargoCwd command args cwd parseOutput =
     (let args1 = prependArgsWithMessageFormatIfRequired parseOutput command args;
          args2 = prependArgsWithManifestPathIfRequired join cargoCwd cwd args1;
          args3 = [command] @ args2;
          cwd' = (case cargoCwd of None \<Rightarrow> cwd | Some d \<Rightarrow> d)
      in (args3, cwd'))"

section \<open>The diagnostic publisher\<close>

text \<open>
  \<^verbatim>\<open>vscode.Range\<close>, \<^verbatim>\<open>vscode.Diagnostic\<close> and \<^verbatim>\<open>FileDiagnostic\<close> as records.
  \<^verbatim>\<open>Range.isEqual\<close> compares the start and the end position, which is equality
  of the record.
\<close>

record position =
  line :: int
  character :: int

record vs_range =
  range_start :: position
  range_end :: position

datatype DiagnosticSeverity = Error | Warning | Information | Hint

record Diagnostic =
  diag_range :: vs_range
  message :: string
  severity :: DiagnosticSeverity

record FileDiagnostic =
  filePath :: string
  diagnostic :: Diagnostic

text \<open>
  The \<^verbatim>\<open>DiagnosticCollection\<close> maps a file's URI to its diagnostics;
  \<^verbatim>\<open>get\<close> of an absent URI is \<^verbatim>\<open>undefined\<close>. \<^verbatim>\<open>isAbsolute\<close> and \<^verbatim>\<open>join\<close>
  (Node's \<^verbatim>\<open>path\<close>) and \<^verbatim>\<open>Uri.file\<close> (vscode) are parameters.
\<close>

type_synonym 'u DiagnosticCollection = "'u \<rightharpoonup> Diagnostic list"

definition isUniqueDiagnostic :: "Diagnostic \<Rightarrow> Diagnostic list \<Rightarrow> bool" where
  "isUniqueDiagnostic d diagnostics =
     (let foundDiagnostic =
            find (\<lambda>uniqueDiagnostic.
                    if \<not> (diag_range d = diag_range uniqueDiagnostic) then False
                    else if message d \<noteq> message uniqueDiagnostic then False
                    else True) diagnostics
      in foundDiagnostic = None)"

definition publishDiagnostic ::
    "(string \<Rightarrow> bool) \<Rightarrow> (string \<Rightarrow> string \<Rightarrow> string) \<Rightarrow> (string \<Rightarrow> 'u) \<Rightarrow>
     FileDiagnostic \<Rightarrow> string \<Rightarrow> 'u DiagnosticCollection \<Rightarrow> 'u DiagnosticCollection" where
  "publishDiagnostic isAbsolute join uriFile fileDiagnostic cwd diagnostics =
     (let d = diagnostic fileDiagnostic;
          fp = filePath fileDiagnostic;
          absoluteFilePath = (if isAbsolute fp then fp else join cwd fp);
          filePathUri = uriFile absoluteFilePath
      in case diagnostics filePathUri of
           None \<Rightarrow> diagnostics(filePathUri \<mapsto> [d])
         | Some oneFileDiagnostics \<Rightarrow>
             if isUniqueDiagnostic d oneFileDiagnostics
             then diagnostics(filePathUri \<mapsto> oneFileDiagnostics @ [d])
             else diagnostics)"

definition clearDiagnostics :: "'u DiagnosticCollection \<Rightarrow> 'u DiagnosticCollection" where
  "clearDiagnostics diagnostics = Map.empty"

text \<open>A call made on the publisher, and a sequence of calls run in order.\<close>

datatype publisher_call = Publish FileDiagnostic string | Clear

fun publisher_step ::
    "(string \<Rightarrow> bool) \<Rightarrow> (string \<Rightarrow> string \<Rightarrow> string) \<Rightarrow> (string \<Rightarrow> 'u) \<Rightarrow>
     'u DiagnosticCollection \<Rightarrow> publisher_call \<Rightarrow> 'u DiagnosticCollection" where
  "publisher_step isAbsolute join uriFile c (Publish fd cwd) =
     publishDiagnostic isAbsolute join uriFile fd cwd c"
| "publisher_step isAbsolute join uriFile c Clear = clearDiagnostics c"

definition publisher_run ::
    "(string \<Rightarrow> bool) \<Rightarrow> (string \<Rightarrow> string \<Rightarrow> string) \<Rightarrow> (string \<Rightarrow> 'u) \<Rightarrow>
     publisher_call list \<Rightarrow> 'u DiagnosticCollection" where
  "publisher_run isAbsolute join uriFile calls =
     foldl (publisher_step isAbsolute join uriFile) Map.empty calls"

text \<open>The identity the duplicate check uses: range and message.\<close>

definition diag_key :: "Diagnostic \<Rightarrow> vs_range \<times> string" where
  "diag_key d = (diag_range d, message d)"

section \<open>The cargo task\<close>

text \<open>
  \<^verbatim>\<open>CargoTask\<close> holds the child process (\<^verbatim>\<open>null\<close> before the spawn and after
  the exit event) and the flag \<^verbatim>\<open>interrupted\<close>. The promise \<^verbatim>\<open>execute\<close> returns is
  part of the model's state: a promise settles once, later calls of \<^verbatim>\<open>resolve\<close> and
  \<^verbatim>\<open>reject\<close> change nothing. An exit code is \<^verbatim>\<open>null\<close> when a signal ended the
  process. \<^verbatim>\<open>treeKills\<close> records the requests made to \<^verbatim>\<open>tree-kill\<close>. A task is
  executed once (every caller constructs a new one); the output callbacks and the
  environment of the process are left out, they touch neither field.
\<close>

datatype promise = Pending | Resolved "int option" | Rejected "string option"

record CargoTask =
  process :: "nat option"
  interrupted :: bool
  executePromise :: "promise option"
  treeKills :: "(nat \<times> string) list"

definition newCargoTask :: CargoTask where
  "newCargoTask =
     \<lparr>process = None, interrupted = False, executePromise = None, treeKills = []\<rparr>"

definition settle :: "promise \<Rightarrow> CargoTask \<Rightarrow> CargoTask" where
  "settle outcome t =
     (if executePromise t = Some Pending then t\<lparr>executePromise := Some outcome\<rparr> else t)"

text \<open>\<^verbatim>\<open>execute\<close>: the process is spawned (its pid is the system's choice) and the
  listeners are attached; the promise is pending.\<close>

definition execute :: "nat \<Rightarrow> CargoTask \<Rightarrow> CargoTask" where
  "execute pid t = t\<lparr>process := Some pid, executePromise := Some Pending\<rparr>"

text \<open>The listeners live on the process object: with no process, or after
  \<^verbatim>\<open>removeAllListeners\<close>, an event reaches nobody.\<close>

definition onError :: "string \<Rightarrow> CargoTask \<Rightarrow> CargoTask" where
  "onError err t =
     (case process t of None \<Rightarrow> t | Some p \<Rightarrow> settle (Rejected (Some err)) t)"

definition onExit :: "int option \<Rightarrow> CargoTask \<Rightarrow> CargoTask" where
  "onExit code t =
     (case process t of
        None \<Rightarrow> t
      | Some p \<Rightarrow>
          (let t' = t\<lparr>process := None\<rparr>
           in if interrupted t' then settle (Rejected None) t'
              else settle (Resolved code) t'))"

text \<open>\<^verbatim>\<open>kill\<close> returns a promise of its own: its \<^verbatim>\<open>resolve\<close> is the callback handed
  to \<^verbatim>\<open>tree-kill\<close>, and nothing else ever calls it.\<close>

datatype kill_promise = ResolvedByTreeKill nat | NeverSettled

definition kill :: "CargoTask \<Rightarrow> CargoTask \<times> kill_promise" where
  "kill t =
     (case process t of
        Some p \<Rightarrow>
          if \<not> interrupted t
          then (t\<lparr>treeKills := treeKills t @ [(p, ''SIGINT'')], interrupted := True\<rparr>,
                ResolvedByTreeKill (length (treeKills t)))
          else (t, NeverSettled)
      | None \<Rightarrow> (t, NeverSettled))"

datatype task_event = Kill | ProcessExit "int option" | ProcessError string

fun task_step :: "CargoTask \<Rightarrow> task_event \<Rightarrow> CargoTask" where
  "task_step t Kill = fst (kill t)"
| "task_step t (ProcessExit code) = onExit code t"
| "task_step t (ProcessError err) = onError err t"

definition task_run :: "CargoTask \<Rightarrow> task_event list \<Rightarrow> CargoTask" where
  "task_run t evs = foldl task_step t evs"

section \<open>The driver of the completion daemon\<close>

abbreviation LF :: char where "LF \<equiv> CHR 0x0A"
abbreviation CR :: char where "CR \<equiv> CHR 0x0D"

text \<open>\<^verbatim>\<open>str.split(/\r?\n/)\<close>: the segments between the terminators; a
  carriage return belongs to the terminator only when a line feed follows it.\<close>

fun consHead :: "char \<Rightarrow> string list \<Rightarrow> string list" where
  "consHead c [] = [[c]]"
| "consHead c (l # ls) = (c # l) # ls"

fun splitLines :: "string \<Rightarrow> string list" where
  "splitLines [] = [[]]"
| "splitLines [c] = (if c = LF then [[], []] else [[c]])"
| "splitLines (c # d # cs) =
     (if c = CR \<and> d = LF then [] # splitLines cs
      else if c = LF then [] # splitLines (d # cs)
      else consHead c (splitLines (d # cs)))"

text \<open>\<^verbatim>\<open>/\r?\n$/.test(dataStr)\<close> and \<^verbatim>\<open>line.startsWith('END')\<close>.\<close>

definition endsWithNewline :: "string \<Rightarrow> bool" where
  "endsWithNewline s = (s \<noteq> [] \<and> last s = LF)"

definition startsWithEND :: "string \<Rightarrow> bool" where
  "startsWithEND l = (take 3 l = ''END'')"

text \<open>
  The state of \<^verbatim>\<open>CompletionManager\<close> the driver works on. A callback is the
  \<^verbatim>\<open>resolve\<close> of the promise \<^verbatim>\<open>runCommand\<close> returned; the model names it by a
  value of type \<^typ>\<open>'cb\<close> and records every call of one, with its argument, in
  \<^verbatim>\<open>invoked\<close>. \<^verbatim>\<open>stdinWritten\<close> records what was written to the daemon, and
  \<^verbatim>\<open>restartTimers\<close> the restarts that \<^verbatim>\<open>setTimeout\<close> has pending. The daemon is
  known by the path it was spawned from. The editor's providers and listeners, the
  logger and the temporary file are left out: the driver never reads them.
\<close>

datatype racer_status = TurnedOn | TurnedOff | NotFound | Crashed

record 'cb CompletionManager =
  racerDaemon :: "string option"
  commandCallbacks :: "'cb list"
  linesBuffer :: "string list"
  dataBuffer :: string
  errorBuffer :: string
  lastCommand :: string
  invoked :: "('cb \<times> string list) list"
  stdinWritten :: "string list"
  restartTimers :: "string list"
  racerStatusBarItem :: racer_status

definition start :: "string \<Rightarrow> 'cb CompletionManager \<Rightarrow> 'cb CompletionManager" where
  "start pathToRacer m =
     m\<lparr>commandCallbacks := [], linesBuffer := [], dataBuffer := [], errorBuffer := [],
       lastCommand := [], racerStatusBarItem := TurnedOn, racerDaemon := Some pathToRacer\<rparr>"

definition stopDaemon :: "'cb CompletionManager \<Rightarrow> 'cb CompletionManager" where
  "stopDaemon m = (case racerDaemon m of None \<Rightarrow> m | Some d \<Rightarrow> m\<lparr>racerDaemon := None\<rparr>)"

definition clearCommandCallbacks :: "'cb CompletionManager \<Rightarrow> 'cb CompletionManager" where
  "clearCommandCallbacks m =
     foldl (\<lambda>m' callback. m'\<lparr>invoked := invoked m' @ [(callback, [])]\<rparr>) m (commandCallbacks m)"

definition stop :: "'cb CompletionManager \<Rightarrow> 'cb CompletionManager" where
  "stop m = clearCommandCallbacks ((stopDaemon m)\<lparr>racerStatusBarItem := TurnedOff\<rparr>)"

text \<open>\<^verbatim>\<open>if (pathToRacer)\<close>: neither \<^verbatim>\<open>undefined\<close> nor the empty string.\<close>

definition restart :: "string option \<Rightarrow> 'cb CompletionManager \<Rightarrow> 'cb CompletionManager" where
  "restart pathToRacer m =
     (let m' = stop m
      in case pathToRacer of
           None \<Rightarrow> m'
         | Some p \<Rightarrow> if p = [] then m' else start p m')"

definition scheduleRestart :: "string \<Rightarrow> 'cb CompletionManager \<Rightarrow> 'cb CompletionManager" where
  "scheduleRestart pathToRacer m = m\<lparr>restartTimers := restartTimers m @ [pathToRacer]\<rparr>"

text \<open>The oldest pending timer fires.\<close>

definition onTimeout :: "'cb CompletionManager \<Rightarrow> 'cb CompletionManager" where
  "onTimeout m =
     (case restartTimers m of
        [] \<Rightarrow> m
      | p # ps \<Rightarrow> restart (Some p) (m\<lparr>restartTimers := ps\<rparr>))"

text \<open>The listeners \<^verbatim>\<open>start\<close> puts on the daemon: \<^verbatim>\<open>'error'\<close> (with the error's
  code) and \<^verbatim>\<open>'close'\<close> (with the exit code).\<close>

definition onDaemonError :: "string \<Rightarrow> string \<Rightarrow> 'cb CompletionManager \<Rightarrow> 'cb CompletionManager" where
  "onDaemonError pathToRacer errCode m =
     (let m' = stopDaemon m
      in if errCode = ''ENOENT'' then m'\<lparr>racerStatusBarItem := NotFound\<rparr>
         else scheduleRestart pathToRacer (m'\<lparr>racerStatusBarItem := Crashed\<rparr>))"

definition onDaemonClose :: "string \<Rightarrow> int option \<Rightarrow> 'cb CompletionManager \<Rightarrow> 'cb CompletionManager" where
  "onDaemonClose pathToRacer code m =
     (let m' = stopDaemon m
      in if code = Some 0 then m'\<lparr>racerStatusBarItem := TurnedOff\<rparr>
         else scheduleRestart pathToRacer (m'\<lparr>racerStatusBarItem := Crashed\<rparr>))"

text \<open>The body of the loop of \<^verbatim>\<open>dataHandler\<close>, for one line.\<close>

definition handleLine :: "'cb CompletionManager \<Rightarrow> string \<Rightarrow> 'cb CompletionManager" where
  "handleLine m l =
     (if length l = 0 then m
      else if startsWithEND l then
        (case commandCallbacks m of
           [] \<Rightarrow> m\<lparr>linesBuffer := []\<rparr>
         | callback # rest \<Rightarrow>
             m\<lparr>commandCallbacks := rest,
               invoked := invoked m @ [(callback, linesBuffer m)],
               linesBuffer := []\<rparr>)
      else m\<lparr>linesBuffer := linesBuffer m @ [l]\<rparr>)"

definition dataHandler :: "'cb CompletionManager \<Rightarrow> string \<Rightarrow> 'cb CompletionManager" where
  "dataHandler m dataStr =
     (if \<not> endsWithNewline dataStr then m\<lparr>dataBuffer := dataBuffer m @ dataStr\<rparr>
      else (let lines = splitLines (dataBuffer m @ dataStr)
            in foldl handleLine (m\<lparr>dataBuffer := []\<rparr>) lines))"

text \<open>
  \<^verbatim>\<open>dataHandler\<close> receives a \<^verbatim>\<open>Buffer\<close> and starts with
  \<^verbatim>\<open>const dataStr = data.toString()\<close>: every chunk is decoded on its own, and the
  function above is what follows that line. \<^verbatim>\<open>toString\<close> is a parameter here. When
  the bytes are cut inside a multi-byte character the decoded chunks do not join to
  the decoded stream; the properties below are about the decoded chunks, and say
  nothing of such a cut.
\<close>

definition dataHandlerBuffer ::
    "('b list \<Rightarrow> string) \<Rightarrow> 'cb CompletionManager \<Rightarrow> 'b list \<Rightarrow> 'cb CompletionManager" where
  "dataHandlerBuffer toString m buf = (let dataStr = toString buf in dataHandler m dataStr)"

text \<open>\<^verbatim>\<open>[command, ...args].join('\t') + '\n'\<close>\<close>

fun joinTab :: "string list \<Rightarrow> string" where
  "joinTab [] = []"
| "joinTab [x] = x"
| "joinTab (x # y # ys) = x @ [CHR 0x09] @ joinTab (y # ys)"

datatype 'cb rpc_promise = RejectedUndefined | ResolvedBy 'cb

definition runCommand ::
    "'cb \<Rightarrow> string \<Rightarrow> string list \<Rightarrow> 'cb CompletionManager \<Rightarrow> 'cb CompletionManager \<times> 'cb rpc_promise" where
  "runCommand resolve command args m =
     (case racerDaemon m of
        None \<Rightarrow> (m, RejectedUndefined)
      | Some d \<Rightarrow>
          (let queryString = joinTab (command # args) @ [LF]
           in (m\<lparr>lastCommand := queryString,
                 commandCallbacks := commandCallbacks m @ [resolve],
                 stdinWritten := stdinWritten m @ [queryString]\<rparr>,
               ResolvedBy resolve)))"

text \<open>What happens to a running driver: a request is issued, or the daemon's output
  arrives in a chunk.\<close>

datatype 'cb rpc_event = Request 'cb string "string list" | Data string

fun rpc_step :: "'cb CompletionManager \<Rightarrow> 'cb rpc_event \<Rightarrow> 'cb CompletionManager" where
  "rpc_step m (Request resolve command args) = fst (runCommand resolve command args m)"
| "rpc_step m (Data dataStr) = dataHandler m dataStr"

definition rpc_run :: "'cb CompletionManager \<Rightarrow> 'cb rpc_event list \<Rightarrow> 'cb CompletionManager" where
  "rpc_run m evs = foldl rpc_step m evs"

definition initialManager :: "'cb CompletionManager" where
  "initialManager =
     \<lparr>racerDaemon = None, commandCallbacks = [], linesBuffer = [], dataBuffer = [],
      errorBuffer = [], lastCommand = [], invoked = [], stdinWritten = [],
      restartTimers = [], racerStatusBarItem = TurnedOff\<rparr>"

text \<open>
  What the properties of the driver speak of, defined on the events and on the byte
  stream alone, with no reference to chunks or to the driver's buffers: the callbacks
  of the requests in issue order; the stream the daemon wrote (the chunks, joined);
  the stream's complete lines (the terminated segments; what follows the last
  terminator is not yet a line); and its response batches, each the non-empty lines
  before a sentinel line since the previous sentinel.
\<close>

fun requestsOf :: "'cb rpc_event list \<Rightarrow> 'cb list" where
  "requestsOf [] = []"
| "requestsOf (Request resolve command args # evs) = resolve # requestsOf evs"
| "requestsOf (Data dataStr # evs) = requestsOf evs"

fun streamOf :: "'cb rpc_event list \<Rightarrow> string" where
  "streamOf [] = []"
| "streamOf (Request resolve command args # evs) = streamOf evs"
| "streamOf (Data dataStr # evs) = dataStr @ streamOf evs"

definition completeLines :: "string \<Rightarrow> string list" where
  "completeLines stream = butlast (splitLines stream)"

fun collectBatches :: "string list \<Rightarrow> string list \<Rightarrow> string list list \<times> string list" where
  "collectBatches cur [] = ([], cur)"
| "collectBatches cur (l # ls) =
     (if l = [] then collectBatches cur ls
      else if startsWithEND l
           then (cur # fst (collectBatches [] ls), snd (collectBatches [] ls))
           else collectBatches (cur @ [l]) ls)"

definition responseBatches :: "string \<Rightarrow> string list list" where
  "responseBatches stream = fst (collectBatches [] (completeLines stream))"

text \<open>
  Responses follow their requests: at every moment, the stream received so far holds
  at most as many complete batches as requests have been issued.
\<close>

definition causal :: "'cb rpc_event list \<Rightarrow> bool" where
  "causal evs =
     list_all (\<lambda>p. length (responseBatches (streamOf p)) \<le> length (requestsOf p))
       (prefixes evs)"

text \<open>
  The invariant of a run of the driver: the stream received is a part \<open>F\<close> whose
  lines have been handled, empty or ending in a terminator, followed by the part
  \<open>B\<close> still in \<^verbatim>\<open>dataBuffer\<close>; the batches of \<open>F\<close> went to the first requests, in
  order, and the later requests wait in the queue.
\<close>

definition rpcInv ::
  "'cb CompletionManager \<Rightarrow> 'cb rpc_event list \<Rightarrow> 'cb CompletionManager \<Rightarrow> string \<Rightarrow> string \<Rightarrow> bool" where
  "rpcInv m0 evs st F B \<longleftrightarrow>
     streamOf evs = F @ B \<and> (F = [] \<or> endsWithNewline F) \<and> dataBuffer st = B
     \<and> (endsWithNewline (streamOf evs) \<longrightarrow> B = [])
     \<and> racerDaemon st \<noteq> None
     \<and> length (fst (collectBatches [] (completeLines F))) \<le> length (requestsOf evs)
     \<and> invoked st = invoked m0 @ zip (requestsOf evs) (fst (collectBatches [] (completeLines F)))
     \<and> commandCallbacks st = drop (length (fst (collectBatches [] (completeLines F)))) (requestsOf evs)
     \<and> linesBuffer st = snd (collectBatches [] (completeLines F))"

section \<open>The parser of machine-readable records\<close>

text \<open>
  The record the compiler prints per diagnostic, after \<^verbatim>\<open>JSON.parse\<close>: \<^verbatim>\<open>message\<close>,
  \<^verbatim>\<open>level\<close>, \<^verbatim>\<open>spans\<close>, \<^verbatim>\<open>children\<close> and the optional \<^verbatim>\<open>code\<close>. A span's
  \<^verbatim>\<open>expansion\<close> is \<^verbatim>\<open>null\<close> or an object whose \<^verbatim>\<open>span\<close> is again a span (or
  \<^verbatim>\<open>null\<close>); a parsed value is a finite tree, which the datatype expresses. A
  child's \<^verbatim>\<open>spans\<close> and \<^verbatim>\<open>children\<close> may be missing.
\<close>

datatype span =
  Span (file_name: string) (line_start: int) (column_start: int)
       (line_end: int) (column_end: int) (is_primary: bool) (expansion: "expansion option")
and expansion =
  Expansion (exp_span: "span option")

datatype child =
  Child (child_message: string) (child_spans: "span list option")
        (child_children: "child list option")

record errorJson =
  json_message :: string
  level :: string
  spans :: "span list"
  children :: "child list"
  code :: "string option"

record RustError =
  filename :: string
  startLine :: int
  startCharacter :: int
  endLine :: int
  endCharacter :: int
  err_severity :: string
  err_message :: string

text \<open>A number in a template string: its decimal digits, with a sign when negative.
  Numbers are integers here; the language prints a double, in exponent form from
  \<open>10\<^sup>2\<^sup>1\<close> up.\<close>

fun digitsOf :: "nat \<Rightarrow> nat \<Rightarrow> string" where
  "digitsOf 0 n = []"
| "digitsOf (Suc fuel) n =
     (if n < 10 then [char_of (48 + n)]
      else digitsOf fuel (n div 10) @ [char_of (48 + n mod 10)])"

definition numberToString :: "int \<Rightarrow> string" where
  "numberToString i =
     (if i < 0 then CHR ''-'' # digitsOf (Suc (nat (- i))) (nat (- i))
      else digitsOf (Suc (nat i)) (nat i))"

text \<open>\<^verbatim>\<open>'   '.repeat(level)\<close> and \<^verbatim>\<open>lines.join(', ')\<close>.\<close>

definition ident :: "nat \<Rightarrow> string" where
  "ident lvl = concat (replicate lvl ''   '')"

fun joinComma :: "string list \<Rightarrow> string" where
  "joinComma [] = []"
| "joinComma [x] = x"
| "joinComma (x # y # ys) = x @ '', '' @ joinComma (y # ys)"

text \<open>The inner loop of \<^verbatim>\<open>addNotesToMessage\<close>: a span with an empty or missing
  file name, or with line 0, is skipped.\<close>

definition spanLines :: "span list \<Rightarrow> string list" where
  "spanLines sps =
     map (\<lambda>sp. file_name sp @ ''('' @ numberToString (line_start sp) @ '')'')
       (filter (\<lambda>sp. \<not> (file_name sp = [] \<or> line_start sp = 0)) sps)"

fun addNoteToMessage :: "string \<Rightarrow> child \<Rightarrow> nat \<Rightarrow> string"
and addNotesToMessage :: "string \<Rightarrow> child list \<Rightarrow> nat \<Rightarrow> string" where
  "addNoteToMessage msg (Child m sps chs) lvl =
     (let msg1 = msg @ [LF] @ ident lvl @ m;
          msg2 = (case sps of
                    None \<Rightarrow> msg1
                  | Some s \<Rightarrow> if length s > 0 then msg1 @ '': '' @ joinComma (spanLines s)
                              else msg1)
      in case chs of
           None \<Rightarrow> msg2
         | Some cs \<Rightarrow> addNotesToMessage msg2 cs (lvl + 1))"
| "addNotesToMessage msg [] lvl = msg"
| "addNotesToMessage msg (c # cs) lvl = addNotesToMessage (addNoteToMessage msg c lvl) cs lvl"

text \<open>The loop \<^verbatim>\<open>while (primarySpan.expansion && primarySpan.expansion.span)\<close>.\<close>

fun followExpansion :: "span \<Rightarrow> span" where
  "followExpansion (Span f ls cs le ce p (Some (Expansion (Some s)))) = followExpansion s"
| "followExpansion (Span f ls cs le ce p (Some (Expansion None))) =
     Span f ls cs le ce p (Some (Expansion None))"
| "followExpansion (Span f ls cs le ce p None) = Span f ls cs le ce p None"

text \<open>\<^verbatim>\<open>parseJson\<close> returns whether it pushed a record; the array \<^verbatim>\<open>errors\<close> it
  pushes to is returned with it.\<close>

definition parseJson :: "RustError list \<Rightarrow> errorJson \<Rightarrow> bool \<times> RustError list" where
  "parseJson errors j =
     (if length (spans j) = 0 then (False, errors)
      else case find is_primary (spans j) of
             None \<Rightarrow> (False, errors)
           | Some primarySpan0 \<Rightarrow>
               (let primarySpan = followExpansion primarySpan0;
                    error = \<lparr>filename = file_name primarySpan,
                             startLine = line_start primarySpan,
                             startCharacter = column_start primarySpan,
                             endLine = line_end primarySpan,
                             endCharacter = column_end primarySpan,
                             err_severity = level j,
                             err_message = json_message j\<rparr>;
                    error1 = (case code j of
                                None \<Rightarrow> error
                              | Some c \<Rightarrow> error\<lparr>err_message := c @ '': '' @ err_message error\<rparr>);
                    error2 = error1\<lparr>err_message :=
                               addNotesToMessage (err_message error1) (children j) 1\<rparr>
                in (True, errors @ [error2])))"

text \<open>The location a record reports, and the one a span names.\<close>

definition errorLocation :: "RustError \<Rightarrow> string \<times> int \<times> int \<times> int \<times> int" where
  "errorLocation e = (filename e, startLine e, startCharacter e, endLine e, endCharacter e)"

definition spanLocation :: "span \<Rightarrow> string \<times> int \<times> int \<times> int \<times> int" where
  "spanLocation s = (file_name s, line_start s, column_start s, line_end s, column_end s)"

text \<open>A span's expansion names a further span.\<close>

definition hasExpansionSpan :: "span \<Rightarrow> bool" where
  "hasExpansionSpan s =
     (case expansion s of None \<Rightarrow> False | Some e \<Rightarrow> (case exp_span e of None \<Rightarrow> False | Some s' \<Rightarrow> True))"

section \<open>The legacy publication path\<close>

text \<open>
  \<^verbatim>\<open>distinctDiagnostics\<close> (the older \<^verbatim>\<open>CommandService\<close>) puts the diagnostics of one
  file into a \<^verbatim>\<open>Map\<close> keyed by the text \<^verbatim>\<open>line:character:line:character:message\<close>
  and returns the map's values. A \<^verbatim>\<open>Map\<close> keeps its keys in the order of their
  first insertion and \<^verbatim>\<open>set\<close> replaces the value of a key it holds: an association
  list under \<^const>\<open>AList.update\<close>.
\<close>

definition diagnosticKey :: "Diagnostic \<Rightarrow> string" where
  "diagnosticKey d =
     numberToString (line (range_start (diag_range d))) @ '':''
     @ numberToString (character (range_start (diag_range d))) @ '':''
     @ numberToString (line (range_end (diag_range d))) @ '':''
     @ numberToString (character (range_end (diag_range d))) @ '':''
     @ message d"

definition distinctDiagnostics :: "Diagnostic list \<Rightarrow> Diagnostic list" where
  "distinctDiagnostics diags =
     map snd (foldl (\<lambda>m diag. AList.update (diagnosticKey diag) diag m) [] diags)"

section \<open>The parser of the new human-readable format\<close>

subsection \<open>Regular expressions\<close>

text \<open>
  \<^verbatim>\<open>parseNewHumanReadable\<close> is written with two regular expressions. They are
  embedded as values of a datatype of patterns, matched by a backtracking matcher
  that follows the language's semantics for the constructs they use: alternatives
  are tried left to right, quantifiers are greedy, an iteration of \<^verbatim>\<open>*\<close> or \<^verbatim>\<open>?\<close>
  that consumes nothing is rejected, the groups inside a quantified pattern are
  cleared when an iteration starts, \<^verbatim>\<open>.\<close> matches all but line terminators. A string
  is a list of 8-bit characters, so \<^verbatim>\<open>\s\<close> is the white space below U+0100.
\<close>

datatype charClass = CChar char | CDigit | CSpace

datatype regex =
  Eps | Lit char | AnyChar | Class "charClass list"
| Seq regex regex | Alt regex regex
| Star regex | Plus regex | Opt regex
| Group nat regex

definition isDigit :: "char \<Rightarrow> bool" where
  "isDigit c = (c \<in> set ''0123456789'')"

definition isSpace :: "char \<Rightarrow> bool" where
  "isSpace c = (c \<in> set [CHR 0x09, CHR 0x0A, CHR 0x0B, CHR 0x0C, CHR 0x0D, CHR 0x20, CHR 0xA0])"

definition isLineTerminator :: "char \<Rightarrow> bool" where
  "isLineTerminator c = (c = CHR 0x0A \<or> c = CHR 0x0D)"

fun inClass :: "charClass list \<Rightarrow> char \<Rightarrow> bool" where
  "inClass [] c = False"
| "inClass (CChar x # cs) c = (c = x \<or> inClass cs c)"
| "inClass (CDigit # cs) c = (isDigit c \<or> inClass cs c)"
| "inClass (CSpace # cs) c = (isSpace c \<or> inClass cs c)"

fun groupsOf :: "regex \<Rightarrow> nat list" where
  "groupsOf Eps = []"
| "groupsOf (Lit x) = []"
| "groupsOf AnyChar = []"
| "groupsOf (Class cs) = []"
| "groupsOf (Seq a b) = groupsOf a @ groupsOf b"
| "groupsOf (Alt a b) = groupsOf a @ groupsOf b"
| "groupsOf (Star r) = groupsOf r"
| "groupsOf (Plus r) = groupsOf r"
| "groupsOf (Opt r) = groupsOf r"
| "groupsOf (Group i r) = i # groupsOf r"

type_synonym captures = "(nat \<times> string) list"

definition clearGroups :: "regex \<Rightarrow> captures \<Rightarrow> captures" where
  "clearGroups r caps = filter (\<lambda>p. fst p \<notin> set (groupsOf r)) caps"

definition setGroup :: "nat \<Rightarrow> string \<Rightarrow> captures \<Rightarrow> captures" where
  "setGroup i g caps = (i, g) # filter (\<lambda>p. fst p \<noteq> i) caps"

text \<open>\<^verbatim>\<open>match[i]\<close>: \<^verbatim>\<open>undefined\<close> for a group that took no part in the match.\<close>

definition group :: "captures \<Rightarrow> nat \<Rightarrow> string option" where
  "group caps i = map_of caps i"

text \<open>
  The matcher works on the patterns still to match, a list of frames: a pattern, the
  end of a group (with the input at its start, from which the captured text is cut),
  or the end of an iteration of \<^verbatim>\<open>*\<close> or of \<^verbatim>\<open>?\<close> (with the input at its start, to
  see whether it consumed anything). It returns the rest of the input and the
  captures of the first way to match everything, \<^verbatim>\<open>None\<close> when there is none.
\<close>

datatype frame = Match regex | CloseGroup nat string | Again regex string | NonEmpty string

fun regexWeight :: "regex \<Rightarrow> nat" where
  "regexWeight Eps = 1"
| "regexWeight (Lit x) = 1"
| "regexWeight AnyChar = 1"
| "regexWeight (Class cs) = 1"
| "regexWeight (Seq a b) = regexWeight a + regexWeight b + 1"
| "regexWeight (Alt a b) = regexWeight a + regexWeight b + 1"
| "regexWeight (Star r) = regexWeight r + 1"
| "regexWeight (Plus r) = 2 * regexWeight r + 2"
| "regexWeight (Opt r) = regexWeight r + 2"
| "regexWeight (Group i r) = regexWeight r + 2"

fun frameWeight :: "nat \<Rightarrow> frame \<Rightarrow> nat" where
  "frameWeight n (Match r) = regexWeight r"
| "frameWeight n (CloseGroup i s0) = 1"
| "frameWeight n (Again r s0) = (if n < length s0 then regexWeight r + 2 else 0)"
| "frameWeight n (NonEmpty s0) = 1"

definition stackWeight :: "nat \<Rightarrow> frame list \<Rightarrow> nat" where
  "stackWeight n k = sum_list (map (frameWeight n) k)"

function run :: "frame list \<Rightarrow> string \<Rightarrow> captures \<Rightarrow> (string \<times> captures) option" where
  "run [] s caps = Some (s, caps)"
| "run (Match Eps # k) s caps = run k s caps"
| "run (Match (Lit x) # k) s caps =
     (case s of [] \<Rightarrow> None | y # ys \<Rightarrow> if y = x then run k ys caps else None)"
| "run (Match AnyChar # k) s caps =
     (case s of [] \<Rightarrow> None | y # ys \<Rightarrow> if isLineTerminator y then None else run k ys caps)"
| "run (Match (Class cs) # k) s caps =
     (case s of [] \<Rightarrow> None | y # ys \<Rightarrow> if inClass cs y then run k ys caps else None)"
| "run (Match (Seq a b) # k) s caps = run (Match a # Match b # k) s caps"
| "run (Match (Alt a b) # k) s caps =
     (case run (Match a # k) s caps of
        Some res \<Rightarrow> Some res
      | None \<Rightarrow> run (Match b # k) s caps)"
| "run (Match (Star r) # k) s caps =
     (case run (Match r # Again r s # k) s (clearGroups r caps) of
        Some res \<Rightarrow> Some res
      | None \<Rightarrow> run k s caps)"
| "run (Again r s0 # k) s caps =
     (if length s < length s0 then run (Match (Star r) # k) s caps else None)"
| "run (Match (Plus r) # k) s caps =
     run (Match r # Match (Star r) # k) s (clearGroups r caps)"
| "run (Match (Opt r) # k) s caps =
     (case run (Match r # NonEmpty s # k) s (clearGroups r caps) of
        Some res \<Rightarrow> Some res
      | None \<Rightarrow> run k s caps)"
| "run (NonEmpty s0 # k) s caps =
     (if length s < length s0 then run k s caps else None)"
| "run (Match (Group i r) # k) s caps = run (Match r # CloseGroup i s # k) s caps"
| "run (CloseGroup i s0 # k) s caps =
     run k s (setGroup i (take (length s0 - length s) s0) caps)"
  by pat_completeness auto
termination
  by (relation "measures [\<lambda>(k, s, caps). length s, \<lambda>(k, s, caps). stackWeight (length s) k]")
    (auto simp: stackWeight_def)

text \<open>\<^verbatim>\<open>re.exec(str)\<close> of a global pattern, from the position its \<^verbatim>\<open>lastIndex\<close>
  names: the pattern is tried at each position in turn. The argument is the input
  from that position on; the result holds the input after the match, which is where
  \<^verbatim>\<open>lastIndex\<close> then points.\<close>

fun exec :: "regex \<Rightarrow> string \<Rightarrow> (string \<times> captures) option" where
  "exec re [] = run [Match re] [] []"
| "exec re (c # cs) =
     (case run [Match re] (c # cs) [] of
        Some res \<Rightarrow> Some res
      | None \<Rightarrow> exec re cs)"

definition test :: "regex \<Rightarrow> string \<Rightarrow> bool" where
  "test re s = (exec re s \<noteq> None)"

text \<open>\<^verbatim>\<open>str.replace(re, rep)\<close> with a global pattern and a replacement free of
  \<^verbatim>\<open>$\<close>: after an empty match the next character is copied.\<close>

function replaceAll :: "regex \<Rightarrow> string \<Rightarrow> string \<Rightarrow> string" where
  "replaceAll re rep s =
     (case run [Match re] s [] of
        Some (rest, caps) \<Rightarrow>
          if length rest < length s then rep @ replaceAll re rep rest
          else (case s of [] \<Rightarrow> rep | c # cs \<Rightarrow> rep @ c # replaceAll re rep cs)
      | None \<Rightarrow> (case s of [] \<Rightarrow> [] | c # cs \<Rightarrow> c # replaceAll re rep cs))"
  by pat_completeness auto
termination
  by (relation "measure (\<lambda>(re, rep, s). length s)") auto

fun lits :: "string \<Rightarrow> regex" where
  "lits [] = Eps"
| "lits [c] = Lit c"
| "lits (c # d # cs) = Seq (Lit c) (lits (d # cs))"

fun seqs :: "regex list \<Rightarrow> regex" where
  "seqs [] = Eps"
| "seqs [r] = r"
| "seqs (r # q # rs) = Seq r (seqs (q # rs))"

subsection \<open>The parser\<close>

text \<open>
  The two patterns of \<^verbatim>\<open>parseNewHumanReadable\<close>:
  \<^verbatim>\<open>(warning|error|note|help)(?:\[(.*)\])?\: (.*)\s+--> (.*):(\d+):(\d+)\n\<close>
  \<^verbatim>\<open>(?:((?:.+\n)+)\.+)?(?:[\d\s]+\|.*)*\n((?:\s+=.*)+)?\<close> and
  \<^verbatim>\<open>\s+\|\s+(\^+)\<close>, and the two of its inner loop, \<^verbatim>\<open>\d+ \|\s{2}\<close> and
  \<^verbatim>\<open>\|\s{2}\<close>.
\<close>

definition newErrorRegex :: regex where
  "newErrorRegex = seqs
     [Group 1 (Alt (lits ''warning'') (Alt (lits ''error'') (Alt (lits ''note'') (lits ''help'')))),
      Opt (seqs [Lit (CHR ''[''), Group 2 (Star AnyChar), Lit (CHR '']'')]),
      Lit (CHR '':''), Lit (CHR '' ''),
      Group 3 (Star AnyChar),
      Plus (Class [CSpace]),
      lits ''--> '',
      Group 4 (Star AnyChar), Lit (CHR '':''),
      Group 5 (Plus (Class [CDigit])), Lit (CHR '':''),
      Group 6 (Plus (Class [CDigit])), Lit (CHR 0x0A),
      Opt (seqs [Group 7 (Plus (seqs [Plus AnyChar, Lit (CHR 0x0A)])), Plus (Lit (CHR ''.''))]),
      Star (seqs [Plus (Class [CDigit, CSpace]), Lit (CHR ''|''), Star AnyChar]),
      Lit (CHR 0x0A),
      Opt (Group 8 (Plus (seqs [Plus (Class [CSpace]), Lit (CHR ''=''), Star AnyChar])))]"

definition newErrorRange :: regex where
  "newErrorRange = seqs
     [Plus (Class [CSpace]), Lit (CHR ''|''), Plus (Class [CSpace]),
      Group 1 (Plus (Lit (CHR ''^'')))]"

definition barTestRegex :: regex where
  "barTestRegex = seqs
     [Plus (Class [CDigit]), Lit (CHR '' ''), Lit (CHR ''|''), Class [CSpace], Class [CSpace]]"

definition barRegex :: regex where
  "barRegex = seqs [Lit (CHR ''|''), Class [CSpace], Class [CSpace]]"

text \<open>\<^verbatim>\<open>Number(s)\<close> for a string of decimal digits, as an exact integer; the
  language's value is a double, exact up to \<open>2\<^sup>5\<^sup>3\<close>.\<close>

definition Number :: "string \<Rightarrow> int" where
  "Number s = foldl (\<lambda>a c. 10 * a + (of_char c - 48)) 0 s"

text \<open>The loop \<^verbatim>\<open>while (/\d+ \|\s{2}/g.test(thisMsg)) thisMsg = thisMsg.replace(/\|\s{2}/g, '| ')\<close>.\<close>

partial_function (option) collapseBars :: "string \<Rightarrow> string option" where
  "collapseBars thisMsg =
     (if test barTestRegex thisMsg
      then collapseBars (replaceAll barRegex ''| '' thisMsg)
      else Some thisMsg)"

text \<open>The message of a block: group 3, then the context lines of group 7 and the
  notes of group 8 where the groups took part in the match with a non-empty text.
  Groups 1, 3, 4, 5 and 6 take part in every match.\<close>

definition groupText :: "captures \<Rightarrow> nat \<Rightarrow> string" where
  "groupText caps i = (case group caps i of None \<Rightarrow> [] | Some g \<Rightarrow> g)"

definition blockMessage :: "captures \<Rightarrow> string option" where
  "blockMessage blk =
     Option.bind
       (case group blk 7 of
          None \<Rightarrow> Some (groupText blk 3)
        | Some g7 \<Rightarrow>
            if g7 = [] then Some (groupText blk 3)
            else Option.bind (collapseBars g7)
                   (\<lambda>thisMsg. Some (groupText blk 3 @ [CHR 0x0A] @ butlast thisMsg)))
       (\<lambda>msg. case group blk 8 of
                 None \<Rightarrow> Some msg
               | Some g8 \<Rightarrow> if g8 = [] then Some msg else Some (msg @ [CHR 0x0A] @ g8))"

datatype js_error = TypeError

text \<open>
  The loop of \<^verbatim>\<open>parseNewHumanReadable\<close>. Each pattern object keeps its own
  \<^verbatim>\<open>lastIndex\<close>: the first two arguments are the output from the position each has
  reached. Both patterns are executed, the loop ends when the block pattern finds
  nothing, and \<^verbatim>\<open>range[1]\<close> of a \<^verbatim>\<open>null\<close> range throws. The loop would not end if
  a match could be empty, so the function is partial: \<^verbatim>\<open>None\<close> is no result.
\<close>

partial_function (option) parseNewHumanReadableLoop ::
    "string \<Rightarrow> string \<Rightarrow> RustError list \<Rightarrow> (js_error + RustError list) option" where
  "parseNewHumanReadableLoop out1 out2 errors =
     (case exec newErrorRegex out1 of
        None \<Rightarrow> Some (Inr errors)
      | Some (rest1, blk) \<Rightarrow>
          Option.bind (blockMessage blk)
            (\<lambda>msg. case exec newErrorRange out2 of
                      None \<Rightarrow> Some (Inl TypeError)
                    | Some (rest2, rng) \<Rightarrow>
                        (case group rng 1 of
                           None \<Rightarrow> Some (Inl TypeError)
                         | Some carets \<Rightarrow>
                             parseNewHumanReadableLoop rest1 rest2
                               (errors @
                                [\<lparr>filename = groupText blk 4,
                                  startLine = Number (groupText blk 5),
                                  startCharacter = Number (groupText blk 6),
                                  endLine = Number (groupText blk 5),
                                  endCharacter = Number (groupText blk 6) + int (length carets),
                                  err_severity = groupText blk 1,
                                  err_message = msg\<rparr>]))))"

definition parseNewHumanReadable ::
    "RustError list \<Rightarrow> string \<Rightarrow> (js_error + RustError list) option" where
  "parseNewHumanReadable errors output = parseNewHumanReadableLoop output output errors"

text \<open>A record that ends on its start line, at or after its start column.\<close>

definition recordShape :: "RustError \<Rightarrow> bool" where
  "recordShape e = (endLine e = startLine e \<and> startCharacter e \<le> endCharacter e)"

declare parseNewHumanReadableLoop.simps [code]
declare collapseBars.simps [code]

section \<open>Properties\<close>

subsection \<open>The publisher never stores a duplicate\<close>

lemma isUniqueDiagnostic_iff:
  "isUniqueDiagnostic d ds \<longleftrightarrow> diag_key d \<notin> diag_key ` set ds"
  by (auto simp: isUniqueDiagnostic_def diag_key_def find_None_iff image_iff)

lemma publishDiagnostic_distinct:
  assumes "\<And>k ds. c k = Some ds \<Longrightarrow> distinct (map diag_key ds)"
    and "publishDiagnostic isAbsolute join uriFile fd cwd c k = Some ds"
  shows "distinct (map diag_key ds)"
  using assms
  by (auto simp: publishDiagnostic_def Let_def isUniqueDiagnostic_iff
      split: option.splits if_splits)

lemma publisher_step_distinct:
  assumes "\<And>k ds. c k = Some ds \<Longrightarrow> distinct (map diag_key ds)"
    and "publisher_step isAbsolute join uriFile c call k = Some ds"
  shows "distinct (map diag_key ds)"
proof (cases call)
  case (Publish fd cwd)
  with assms show ?thesis
    using publishDiagnostic_distinct [of c isAbsolute join uriFile fd cwd k ds] by simp
next
  case Clear
  with assms(2) show ?thesis by (simp add: clearDiagnostics_def)
qed

lemma foldl_publisher_distinct:
  assumes "\<And>k ds. c k = Some ds \<Longrightarrow> distinct (map diag_key ds)"
    and "foldl (publisher_step isAbsolute join uriFile) c calls k = Some ds"
  shows "distinct (map diag_key ds)"
  using assms
proof (induction calls arbitrary: c k ds)
  case Nil
  then show ?case by simp
next
  case (Cons call calls)
  show ?case
  proof (rule Cons.IH [of "publisher_step isAbsolute join uriFile c call" k ds])
    fix k' ds'
    assume "publisher_step isAbsolute join uriFile c call k' = Some ds'"
    then show "distinct (map diag_key ds')"
      using publisher_step_distinct [of c isAbsolute join uriFile call k' ds'] Cons.prems(1)
      by blast
  next
    show "foldl (publisher_step isAbsolute join uriFile)
            (publisher_step isAbsolute join uriFile c call) calls k = Some ds"
      using Cons.prems(2) by simp
  qed
qed

lemma publisher_run_distinct:
  "publisher_run isAbsolute join uriFile calls k = Some ds \<Longrightarrow> distinct (map diag_key ds)"
  unfolding publisher_run_def
  by (rule foldl_publisher_distinct [of Map.empty]) simp_all

lemma set_AList_update: "set (AList.update k v al) \<subseteq> insert (k, v) (set al)"
  by (induction al) auto

lemma distinct_map_comp: "distinct (map (\<lambda>x. g (f x)) xs) \<Longrightarrow> distinct (map f xs)"
  by (induction xs) auto

lemma distinctDiagnostics_fold:
  "distinct (map fst m) \<Longrightarrow> (\<forall>p \<in> set m. fst p = diagnosticKey (snd p)) \<Longrightarrow>
   distinct (map fst (foldl (\<lambda>m diag. AList.update (diagnosticKey diag) diag m) m diags))
   \<and> (\<forall>p \<in> set (foldl (\<lambda>m diag. AList.update (diagnosticKey diag) diag m) m diags).
         fst p = diagnosticKey (snd p))"
proof (induction diags arbitrary: m)
  case Nil
  then show ?case by simp
next
  case (Cons d diags)
  have a: "distinct (map fst (AList.update (diagnosticKey d) d m))"
    using Cons.prems(1) by (rule distinct_update)
  have b: "\<forall>p \<in> set (AList.update (diagnosticKey d) d m). fst p = diagnosticKey (snd p)"
  proof
    fix p
    assume "p \<in> set (AList.update (diagnosticKey d) d m)"
    then have "p = (diagnosticKey d, d) \<or> p \<in> set m"
      using set_AList_update [of "diagnosticKey d" d m] by blast
    then show "fst p = diagnosticKey (snd p)"
      using Cons.prems(2) by (elim disjE) simp_all
  qed
  show ?case unfolding foldl_Cons using Cons.IH [OF a b] .
qed

lemma distinctDiagnostics_distinct: "distinct (map diag_key (distinctDiagnostics diags))"
proof -
  let ?m = "foldl (\<lambda>m diag. AList.update (diagnosticKey diag) diag m) [] diags"
  let ?g = "\<lambda>k. numberToString (line (range_start (fst k))) @ '':''
     @ numberToString (character (range_start (fst k))) @ '':''
     @ numberToString (line (range_end (fst k))) @ '':''
     @ numberToString (character (range_end (fst k))) @ '':'' @ snd k"
  from distinctDiagnostics_fold [of "[]" diags]
  have d: "distinct (map fst ?m)" and k: "\<forall>p \<in> set ?m. fst p = diagnosticKey (snd p)"
    by simp_all
  have "map fst ?m = map (\<lambda>x. ?g (diag_key x)) (map snd ?m)"
    using k by (simp add: diagnosticKey_def diag_key_def)
  with d have "distinct (map (\<lambda>x. ?g (diag_key x)) (map snd ?m))" by simp
  then have "distinct (map diag_key (map snd ?m))"
    by (rule distinct_map_comp)
  then show ?thesis by (simp add: distinctDiagnostics_def)
qed

text \<open>
  C2. The duplicate check of \<^verbatim>\<open>publishDiagnostic\<close> finds a stored record exactly when
  one has the new record's range and message (severity and file path play no part);
  a publish stores the record alone for a file with no records, appends it when the
  check finds no match, and changes nothing otherwise. Hence after any sequence of
  publish and clear calls on a new publisher, no file's stored sequence holds two
  records with equal range and equal message. Nor does a list that
  \<^verbatim>\<open>distinctDiagnostics\<close> returns, on the legacy path.
\<close>

theorem publish_no_duplicates:
  "(isUniqueDiagnostic d ds \<longleftrightarrow>
      (\<forall>u \<in> set ds. \<not> (diag_range u = diag_range d \<and> message u = message d)))
   \<and> publishDiagnostic isAbsolute join uriFile fd cwd c =
       (let uri = uriFile (if isAbsolute (filePath fd) then filePath fd else join cwd (filePath fd))
        in case c uri of
             None \<Rightarrow> c(uri \<mapsto> [diagnostic fd])
           | Some stored \<Rightarrow>
               if isUniqueDiagnostic (diagnostic fd) stored
               then c(uri \<mapsto> stored @ [diagnostic fd]) else c)
   \<and> (publisher_run isAbsolute join uriFile calls k = Some stored' \<longrightarrow>
        distinct (map diag_key stored')
        \<and> (\<forall>i < length stored'. \<forall>j < length stored'.
              diag_range (stored' ! i) = diag_range (stored' ! j)
              \<and> message (stored' ! i) = message (stored' ! j) \<longrightarrow> i = j))
   \<and> distinct (map diag_key (distinctDiagnostics diags))"
proof -
  have a: "isUniqueDiagnostic d ds \<longleftrightarrow>
      (\<forall>u \<in> set ds. \<not> (diag_range u = diag_range d \<and> message u = message d))"
    by (auto simp: isUniqueDiagnostic_iff diag_key_def image_iff)
  have b: "publishDiagnostic isAbsolute join uriFile fd cwd c =
       (let uri = uriFile (if isAbsolute (filePath fd) then filePath fd else join cwd (filePath fd))
        in case c uri of
             None \<Rightarrow> c(uri \<mapsto> [diagnostic fd])
           | Some stored \<Rightarrow>
               if isUniqueDiagnostic (diagnostic fd) stored
               then c(uri \<mapsto> stored @ [diagnostic fd]) else c)"
    by (simp add: publishDiagnostic_def Let_def)
  have c: "distinct (map diag_key stored')
        \<and> (\<forall>i < length stored'. \<forall>j < length stored'.
              diag_range (stored' ! i) = diag_range (stored' ! j)
              \<and> message (stored' ! i) = message (stored' ! j) \<longrightarrow> i = j)"
    if run: "publisher_run isAbsolute join uriFile calls k = Some stored'"
  proof -
    have dist: "distinct (map diag_key stored')"
      using publisher_run_distinct [OF run] .
    have "i = j" if "i < length stored'" "j < length stored'"
      "diag_range (stored' ! i) = diag_range (stored' ! j)"
      "message (stored' ! i) = message (stored' ! j)" for i j
    proof -
      have "map diag_key stored' ! i = map diag_key stored' ! j"
        using that by (simp add: diag_key_def)
      moreover have "i < length (map diag_key stored')" "j < length (map diag_key stored')"
        using that(1,2) by simp_all
      ultimately show ?thesis
        using nth_eq_iff_index_eq [OF dist] by blast
    qed
    with dist show ?thesis by blast
  qed
  from a b c distinctDiagnostics_distinct [of diags] show ?thesis by blast
qed

text \<open>
  The same diagnostic published twice for one file, by a relative and by an absolute
  path and with different severities, is stored once.
\<close>

theorem publish_no_duplicates_witness:
  "publisher_run (\<lambda>p. take 1 p = ''/'') (\<lambda>a b. a @ ''/'' @ b) (\<lambda>p. p)
     [Publish \<lparr>filePath = ''src/main.rs'',
               diagnostic = \<lparr>diag_range = \<lparr>range_start = \<lparr>line = 2, character = 4\<rparr>,
                                             range_end = \<lparr>line = 2, character = 9\<rparr>\<rparr>,
                             message = ''mismatched types'', severity = Error\<rparr>\<rparr> ''/w'',
      Publish \<lparr>filePath = ''/w/src/main.rs'',
               diagnostic = \<lparr>diag_range = \<lparr>range_start = \<lparr>line = 2, character = 4\<rparr>,
                                             range_end = \<lparr>line = 2, character = 9\<rparr>\<rparr>,
                             message = ''mismatched types'', severity = Warning\<rparr>\<rparr> ''/w'']
     ''/w/src/main.rs''
   = Some [\<lparr>diag_range = \<lparr>range_start = \<lparr>line = 2, character = 4\<rparr>,
                            range_end = \<lparr>line = 2, character = 9\<rparr>\<rparr>,
            message = ''mismatched types'', severity = Error\<rparr>]
   \<and> distinct (map diag_key
       [\<lparr>diag_range = \<lparr>range_start = \<lparr>line = 2, character = 4\<rparr>,
                       range_end = \<lparr>line = 2, character = 9\<rparr>\<rparr>,
         message = ''mismatched types'', severity = Error\<rparr>])"
proof -
  let ?d = "\<lparr>diag_range = \<lparr>range_start = \<lparr>line = 2, character = 4\<rparr>,
                            range_end = \<lparr>line = 2, character = 9\<rparr>\<rparr>,
            message = ''mismatched types'', severity = Error\<rparr>"
  let ?calls = "[Publish \<lparr>filePath = ''src/main.rs'', diagnostic = ?d\<rparr> ''/w'',
      Publish \<lparr>filePath = ''/w/src/main.rs'',
               diagnostic = ?d\<lparr>severity := Warning\<rparr>\<rparr> ''/w'']"
  have run: "publisher_run (\<lambda>p. take 1 p = ''/'') (\<lambda>a b. a @ ''/'' @ b) (\<lambda>p. p) ?calls
     ''/w/src/main.rs'' = Some [?d]"
    by (simp add: publisher_run_def publishDiagnostic_def isUniqueDiagnostic_def Let_def)
  from publish_no_duplicates [of _ _ "\<lambda>p. take 1 p = ''/''" "\<lambda>a b. a @ ''/'' @ b" "\<lambda>p. p"
      _ _ _ ?calls "''/w/src/main.rs''" "[?d]"] run
  have "distinct (map diag_key [?d])" by blast
  with run show ?thesis by simp
qed

subsection \<open>The argument list of a task\<close>

text \<open>
  C8. The argument list handed to the task is the subcommand, then the manifest-path
  override (present exactly when a working directory is configured and differs from
  the invocation's), then the structured-output flag (present exactly when parsing was
  requested and the subcommand is build, check, clippy, test or run), then the user's
  arguments; it is built by prepending in that order: flag, override, subcommand.
\<close>

theorem startTask_argument_order:
  "fst (startTask join cargoCwd c a cwd p) =
     [c]
     @ (if cargoCwd \<noteq> None \<and> cargoCwd \<noteq> Some cwd
        then [''--manifest-path'', join cwd ''Cargo.toml''] else [])
     @ (if p \<and> c \<in> {''build'', ''check'', ''clippy'', ''test'', ''run''}
        then [''--message-format'', ''json''] else [])
     @ a
   \<and> fst (startTask join cargoCwd c a cwd p) =
     c # prependArgsWithManifestPathIfRequired join cargoCwd cwd
           (prependArgsWithMessageFormatIfRequired p c a)
   \<and> hd (fst (startTask join cargoCwd c a cwd p)) = c"
  by (simp add: startTask_def prependArgsWithManifestPathIfRequired_def
      prependArgsWithMessageFormatIfRequired_def Let_def)

subsection \<open>Killing a task\<close>

lemma interrupted_step: "interrupted t \<Longrightarrow> interrupted (task_step t e)"
  by (cases e)
    (auto simp: kill_def onExit_def onError_def settle_def Let_def split: option.splits)

lemma never_resolved_step:
  "interrupted t \<Longrightarrow> executePromise t \<noteq> Some (Resolved c) \<Longrightarrow>
   executePromise (task_step t e) \<noteq> Some (Resolved c)"
  by (cases e)
    (auto simp: kill_def onExit_def onError_def settle_def Let_def
      split: option.splits if_splits)

lemma never_resolved_run:
  "interrupted t \<Longrightarrow> executePromise t \<noteq> Some (Resolved c) \<Longrightarrow>
   executePromise (task_run t evs) \<noteq> Some (Resolved c)"
  unfolding task_run_def
proof (induction evs arbitrary: t)
  case Nil
  then show ?case by simp
next
  case (Cons e evs)
  then show ?case
    using interrupted_step [of t e] never_resolved_step [of t c e] by simp
qed

lemma settled_step:
  "executePromise t = Some x \<Longrightarrow> x \<noteq> Pending \<Longrightarrow> executePromise (task_step t e) = Some x"
  by (cases e)
    (auto simp: kill_def onExit_def onError_def settle_def Let_def
      split: option.splits if_splits)

lemma settled_run:
  "executePromise t = Some x \<Longrightarrow> x \<noteq> Pending \<Longrightarrow> executePromise (task_run t evs) = Some x"
  unfolding task_run_def
  by (induction evs arbitrary: t) (simp_all add: settled_step)

lemma kills_only_run:
  "set ks \<subseteq> {Kill} \<Longrightarrow> interrupted t \<Longrightarrow> task_run t ks = t"
  unfolding task_run_def
  by (induction ks arbitrary: t) (auto simp: kill_def split: option.splits)

lemma task_run_append: "task_run t (xs @ ys) = task_run (task_run t xs) ys"
  by (simp add: task_run_def)

lemma task_run_Cons: "task_run t (e # es) = task_run (task_step t e) es"
  by (simp add: task_run_def)

text \<open>
  C1, as amended. For a task on which \<^verbatim>\<open>kill()\<close> is called while its process is
  active (spawned, exit event not yet delivered) and the promise of \<^verbatim>\<open>execute()\<close> is
  unsettled: when the exit event is the next process event delivered (further
  \<^verbatim>\<open>kill()\<close> calls may come in between), the promise is rejected with no error,
  whatever exit code the event carries and whatever is delivered later; and whatever
  events follow the \<^verbatim>\<open>kill()\<close>, the promise is never resolved with an exit code.
\<close>

theorem kill_then_exit_is_interrupted:
  assumes "process t = Some p" and "executePromise t = Some Pending"
  shows "(set ks \<subseteq> {Kill} \<longrightarrow>
            executePromise (task_run (fst (kill t)) (ks @ ProcessExit exitCode # rest))
              = Some (Rejected None))
         \<and> executePromise (task_run (fst (kill t)) evs) \<noteq> Some (Resolved c)"
proof -
  let ?t = "fst (kill t)"
  have int: "interrupted ?t" and pr: "process ?t = Some p"
    and pe: "executePromise ?t = Some Pending"
    using assms by (auto simp: kill_def)
  have part2: "executePromise (task_run ?t evs) \<noteq> Some (Resolved c)"
    using never_resolved_run [OF int, of c evs] pe by simp
  have part1: "executePromise (task_run ?t (ks @ ProcessExit exitCode # rest)) = Some (Rejected None)"
    if ks: "set ks \<subseteq> {Kill}"
  proof -
    have "task_run ?t ks = ?t" using kills_only_run [OF ks int] .
    moreover have "executePromise (task_step ?t (ProcessExit exitCode)) = Some (Rejected None)"
      using int pr pe by (simp add: onExit_def settle_def Let_def)
    ultimately show ?thesis
      using settled_run [of "task_step ?t (ProcessExit exitCode)" "Rejected None" rest]
      by (simp add: task_run_append task_run_Cons)
  qed
  from part1 part2 show ?thesis by blast
qed

theorem kill_then_exit_is_interrupted_witness:
  "process (execute 7 newCargoTask) = Some 7
   \<and> executePromise (execute 7 newCargoTask) = Some Pending
   \<and> set [Kill] \<subseteq> {Kill}
   \<and> executePromise (task_run (fst (kill (execute 7 newCargoTask)))
        ([Kill] @ ProcessExit (Some 0) # [ProcessError ''late''])) = Some (Rejected None)
   \<and> executePromise (task_run (fst (kill (execute 7 newCargoTask)))
        [ProcessExit (Some 0)]) \<noteq> Some (Resolved (Some 0))"
proof -
  have p: "process (execute 7 newCargoTask) = Some 7"
    by (simp add: execute_def newCargoTask_def)
  have e: "executePromise (execute 7 newCargoTask) = Some Pending"
    by (simp add: execute_def newCargoTask_def)
  show ?thesis
    using p e
      kill_then_exit_is_interrupted [OF p e, of "[Kill]" "Some 0" "[ProcessError ''late'']"
        "[ProcessExit (Some 0)]" "Some 0"]
    by simp
qed

text \<open>
  C1 as stated fails: \<^verbatim>\<open>kill()\<close> called on a task whose process is not spawned yet
  (\<^verbatim>\<open>runCargo\<close> stores the task before it awaits the working directory, so the stop
  command can reach it then) does nothing, its promise never settles, and the task,
  once executed, resolves with the exit code.
\<close>

theorem kill_before_spawn_counterexample:
  "snd (kill newCargoTask) = NeverSettled
   \<and> executePromise (task_run (execute 7 (fst (kill newCargoTask))) [ProcessExit (Some 0)])
       = Some (Resolved (Some 0))"
  by (simp add: kill_def newCargoTask_def execute_def task_run_def onExit_def settle_def
      Let_def)

text \<open>
  C10. \<^verbatim>\<open>kill()\<close> on a task with no active process, or on one already interrupted,
  changes nothing and asks for no signal. On a running task not yet interrupted it
  asks \<^verbatim>\<open>tree-kill\<close> to send SIGINT to the process tree, with the returned promise's
  \<^verbatim>\<open>resolve\<close> as the completion callback, and sets \<^verbatim>\<open>interrupted\<close>. A second
  \<^verbatim>\<open>kill()\<close> leaves the task as the first left it.
\<close>

theorem kill_idempotent:
  "(process t = None \<or> interrupted t \<longrightarrow> kill t = (t, NeverSettled))
   \<and> (\<forall>p. process t = Some p \<and> \<not> interrupted t \<longrightarrow>
        kill t = (t\<lparr>treeKills := treeKills t @ [(p, ''SIGINT'')], interrupted := True\<rparr>,
                  ResolvedByTreeKill (length (treeKills t))))
   \<and> kill (fst (kill t)) = (fst (kill t), NeverSettled)"
  by (auto simp: kill_def split: option.splits)

theorem kill_idempotent_witness:
  "kill newCargoTask = (newCargoTask, NeverSettled)
   \<and> kill (execute 7 newCargoTask) =
       ((execute 7 newCargoTask)\<lparr>treeKills := [(7, ''SIGINT'')], interrupted := True\<rparr>,
        ResolvedByTreeKill 0)
   \<and> fst (kill (fst (kill (execute 7 newCargoTask)))) = fst (kill (execute 7 newCargoTask))
   \<and> snd (kill (fst (kill (execute 7 newCargoTask)))) = NeverSettled"
  using kill_idempotent [of newCargoTask] kill_idempotent [of "execute 7 newCargoTask"]
  by (simp add: newCargoTask_def execute_def kill_def)

subsection \<open>Stopping the daemon\<close>

lemma clearCommandCallbacks_foldl:
  "foldl (\<lambda>m' callback. m'\<lparr>invoked := invoked m' @ [(callback, [])]\<rparr>) m cbs
     = m\<lparr>invoked := invoked m @ map (\<lambda>callback. (callback, [])) cbs\<rparr>"
  by (induction cbs arbitrary: m) simp_all

lemma clearCommandCallbacks_eq:
  "clearCommandCallbacks m =
     m\<lparr>invoked := invoked m @ map (\<lambda>callback. (callback, [])) (commandCallbacks m)\<rparr>"
  by (simp add: clearCommandCallbacks_def clearCommandCallbacks_foldl)

lemma invoked_stop:
  "invoked (stop m) = invoked m @ map (\<lambda>callback. (callback, [])) (commandCallbacks m)"
  by (simp add: stop_def clearCommandCallbacks_eq stopDaemon_def split: option.splits)

lemma invoked_restart:
  "invoked (restart p m) = invoked m @ map (\<lambda>callback. (callback, [])) (commandCallbacks m)"
  by (simp add: restart_def Let_def invoked_stop start_def split: option.splits)

text \<open>
  C7. \<^verbatim>\<open>stop()\<close> calls every pending command callback with the empty list, in
  queue order, and nothing else; so does \<^verbatim>\<open>restart\<close>, which stops first. A crash
  (the daemon closes with a code other than 0) schedules a restart, and when its
  timer fires the callbacks pending at the crash are called with the empty list.
\<close>

theorem stop_invokes_every_pending_callback:
  "invoked (stop m) = invoked m @ map (\<lambda>callback. (callback, [])) (commandCallbacks m)
   \<and> (\<forall>callback \<in> set (commandCallbacks m). (callback, []) \<in> set (invoked (stop m)))
   \<and> (\<forall>callback \<in> set (commandCallbacks m). (callback, []) \<in> set (invoked (restart p m)))
   \<and> (exitCode \<noteq> Some 0 \<longrightarrow>
        (\<forall>callback \<in> set (commandCallbacks m).
            (callback, []) \<in> set (invoked (onTimeout
               (onDaemonClose path exitCode (m\<lparr>restartTimers := []\<rparr>))))))"
  by (auto simp: invoked_stop invoked_restart onTimeout_def onDaemonClose_def Let_def
      scheduleRestart_def stopDaemon_def split: option.splits list.splits)

theorem stop_invokes_every_pending_callback_witness:
  "invoked (stop ((initialManager :: nat CompletionManager)\<lparr>commandCallbacks := [1, 2]\<rparr>))
     = [(1, []), (2, [])]
   \<and> (1, []) \<in> set (invoked (stop
         ((initialManager :: nat CompletionManager)\<lparr>commandCallbacks := [1, 2]\<rparr>)))"
  using stop_invokes_every_pending_callback
    [of "(initialManager :: nat CompletionManager)\<lparr>commandCallbacks := [1, 2]\<rparr>"]
  by (simp add: initialManager_def)

subsection \<open>The location of a machine-readable record\<close>

lemma followExpansion_unfold:
  "followExpansion s =
     (case expansion s of
        None \<Rightarrow> s
      | Some e \<Rightarrow> (case exp_span e of None \<Rightarrow> s | Some s' \<Rightarrow> followExpansion s'))"
  by (induction s rule: followExpansion.induct) simp_all

lemma followExpansion_outermost: "\<not> hasExpansionSpan (followExpansion s)"
  by (induction s rule: followExpansion.induct) (simp_all add: hasExpansionSpan_def)

lemma followExpansion_id: "\<not> hasExpansionSpan s \<Longrightarrow> followExpansion s = s"
  by (induction s rule: followExpansion.induct) (simp_all add: hasExpansionSpan_def)

lemma parseJson_primary:
  assumes "find is_primary (spans j) = Some A"
  shows "fst (parseJson errors j)"
    and "\<exists>e. snd (parseJson errors j) = errors @ [e]
           \<and> errorLocation e = spanLocation (followExpansion A)"
proof -
  from assms have ne: "spans j \<noteq> []" by auto
  show "fst (parseJson errors j)"
    using assms ne by (simp add: parseJson_def Let_def)
  show "\<exists>e. snd (parseJson errors j) = errors @ [e]
           \<and> errorLocation e = spanLocation (followExpansion A)"
    using assms ne
    by (simp add: parseJson_def Let_def errorLocation_def spanLocation_def split: option.splits)
qed

lemma parseJson_location:
  assumes "find is_primary (spans j) = Some A"
  shows "parseJson errors j = (True, errors @ [last (snd (parseJson errors j))])"
    and "errorLocation (last (snd (parseJson errors j))) = spanLocation (followExpansion A)"
proof -
  from parseJson_primary(2) [OF assms, of errors] obtain e where
    e: "snd (parseJson errors j) = errors @ [e]"
       "errorLocation e = spanLocation (followExpansion A)" by blast
  show "parseJson errors j = (True, errors @ [last (snd (parseJson errors j))])"
    using parseJson_primary(1) [OF assms, of errors] e(1)
    by (cases "parseJson errors j") simp
  show "errorLocation (last (snd (parseJson errors j))) = spanLocation (followExpansion A)"
    using e by simp
qed

lemma find_first_primary:
  "\<forall>s \<in> set pre. \<not> is_primary s \<Longrightarrow> is_primary A \<Longrightarrow> find is_primary (pre @ A # post) = Some A"
  by (induction pre) simp_all

lemma find_no_primary: "\<forall>s \<in> set xs. \<not> is_primary s \<Longrightarrow> find is_primary xs = None"
  by (simp add: find_None_iff)

text \<open>
  C4. When the record has a primary span, \<^verbatim>\<open>parseJson\<close> pushes one record whose file,
  lines and columns are those of the span at the end of the primary span's expansion
  chain: the chain is followed while a span has an expansion that names a span, and
  the span reached names none. In particular a primary span whose expansion names
  \<open>S2\<close>, with \<open>S2\<close>'s expansion \<^verbatim>\<open>null\<close>, gives \<open>S2\<close>'s location.
\<close>

theorem parseJson_follows_expansion_chain:
  assumes "find is_primary (spans j) = Some A"
  shows "parseJson errors j = (True, errors @ [last (snd (parseJson errors j))])
     \<and> errorLocation (last (snd (parseJson errors j))) = spanLocation (followExpansion A)
     \<and> \<not> hasExpansionSpan (followExpansion A)
     \<and> followExpansion A =
         (case expansion A of
            None \<Rightarrow> A
          | Some e \<Rightarrow> (case exp_span e of None \<Rightarrow> A | Some s' \<Rightarrow> followExpansion s'))
     \<and> (\<forall>S2. expansion A = Some (Expansion (Some S2)) \<and> expansion S2 = None \<longrightarrow>
           errorLocation (last (snd (parseJson errors j))) = spanLocation S2)"
proof -
  have "followExpansion A = S2"
    if "expansion A = Some (Expansion (Some S2))" "expansion S2 = None" for S2
  proof -
    have "followExpansion A = followExpansion S2"
      using that(1) by (subst followExpansion_unfold) simp
    also have "\<dots> = S2"
      using that(2) by (subst followExpansion_unfold) simp
    finally show ?thesis .
  qed
  then show ?thesis
    using parseJson_location [OF assms, of errors] followExpansion_outermost [of A]
      followExpansion_unfold [of A]
    by metis
qed

text \<open>
  C3, as amended. When the first span marked primary is \<open>A\<close>, \<^verbatim>\<open>parseJson\<close> pushes
  one record whose location is that of the span reached from \<open>A\<close> by following its
  expansion chain, which is \<open>A\<close>'s own location when \<open>A\<close>'s expansion names no
  span; the other spans of the record play no part in it. When the span list is empty
  or holds no primary span, nothing is pushed.
\<close>

theorem parseJson_uses_primary_span:
  "(spans j = pre @ A # post \<and> (\<forall>s \<in> set pre. \<not> is_primary s) \<and> is_primary A \<longrightarrow>
      parseJson errors j = (True, errors @ [last (snd (parseJson errors j))])
      \<and> errorLocation (last (snd (parseJson errors j))) = spanLocation (followExpansion A)
      \<and> (\<not> hasExpansionSpan A \<longrightarrow>
            errorLocation (last (snd (parseJson errors j))) = spanLocation A)
      \<and> errorLocation (last (snd (parseJson errors j)))
          = errorLocation (last (snd (parseJson errors (j\<lparr>spans := [A]\<rparr>)))))
   \<and> (spans j = [] \<or> (\<forall>s \<in> set (spans j). \<not> is_primary s) \<longrightarrow>
        parseJson errors j = (False, errors))"
proof -
  have one: "parseJson errors j = (True, errors @ [last (snd (parseJson errors j))])
      \<and> errorLocation (last (snd (parseJson errors j))) = spanLocation (followExpansion A)
      \<and> (\<not> hasExpansionSpan A \<longrightarrow>
            errorLocation (last (snd (parseJson errors j))) = spanLocation A)
      \<and> errorLocation (last (snd (parseJson errors j)))
          = errorLocation (last (snd (parseJson errors (j\<lparr>spans := [A]\<rparr>))))"
    if sp: "spans j = pre @ A # post" and pre: "\<forall>s \<in> set pre. \<not> is_primary s"
      and A: "is_primary A"
  proof -
    have f: "find is_primary (spans j) = Some A"
      using find_first_primary [OF pre A] sp by simp
    have f': "find is_primary (spans (j\<lparr>spans := [A]\<rparr>)) = Some A"
      using A by simp
    show ?thesis
      using parseJson_location [OF f, of errors] parseJson_location(2) [OF f', of errors]
        followExpansion_id [of A]
      by simp
  qed
  have two: "parseJson errors j = (False, errors)"
    if "spans j = [] \<or> (\<forall>s \<in> set (spans j). \<not> is_primary s)"
    using that find_no_primary [of "spans j"]
    by (auto simp: parseJson_def)
  from one two show ?thesis by blast
qed

theorem parseJson_follows_expansion_chain_witness:
  "find is_primary (spans
     \<lparr>json_message = ''mismatched types'', level = ''error'',
      spans = [Span ''src/macros.rs'' 10 5 10 20 True
                 (Some (Expansion (Some (Span ''src/main.rs'' 3 5 3 12 False None)))),
               Span ''src/lib.rs'' 7 1 7 4 False None],
      children = [], code = None\<rparr>)
     = Some (Span ''src/macros.rs'' 10 5 10 20 True
                 (Some (Expansion (Some (Span ''src/main.rs'' 3 5 3 12 False None)))))
   \<and> errorLocation (last (snd (parseJson []
        \<lparr>json_message = ''mismatched types'', level = ''error'',
         spans = [Span ''src/macros.rs'' 10 5 10 20 True
                    (Some (Expansion (Some (Span ''src/main.rs'' 3 5 3 12 False None)))),
                  Span ''src/lib.rs'' 7 1 7 4 False None],
         children = [], code = None\<rparr>)))
     = spanLocation (Span ''src/main.rs'' 3 5 3 12 False None)"
proof -
  let ?S2 = "Span ''src/main.rs'' 3 5 3 12 False None"
  let ?A = "Span ''src/macros.rs'' 10 5 10 20 True (Some (Expansion (Some ?S2)))"
  let ?j = "\<lparr>json_message = ''mismatched types'', level = ''error'',
      spans = [?A, Span ''src/lib.rs'' 7 1 7 4 False None], children = [], code = None\<rparr>"
  have f: "find is_primary (spans ?j) = Some ?A" by simp
  have "errorLocation (last (snd (parseJson [] ?j))) = spanLocation ?S2"
    using parseJson_follows_expansion_chain [OF f, of "[]"] by simp
  with f show ?thesis by blast
qed

text \<open>
  C3 as stated fails where the primary span carries an expansion: the record takes the
  location the expansion chain leads to, not the primary span's own.
\<close>

theorem parseJson_primary_with_expansion_counterexample:
  "is_primary (Span ''src/macros.rs'' 10 5 10 20 True
                 (Some (Expansion (Some (Span ''src/main.rs'' 3 5 3 12 False None)))))
   \<and> \<not> is_primary (Span ''src/lib.rs'' 7 1 7 4 False None)
   \<and> errorLocation (last (snd (parseJson []
        \<lparr>json_message = ''mismatched types'', level = ''error'',
         spans = [Span ''src/macros.rs'' 10 5 10 20 True
                    (Some (Expansion (Some (Span ''src/main.rs'' 3 5 3 12 False None)))),
                  Span ''src/lib.rs'' 7 1 7 4 False None],
         children = [], code = None\<rparr>)))
     = (''src/main.rs'', 3, 5, 3, 12)
   \<and> errorLocation (last (snd (parseJson []
        \<lparr>json_message = ''mismatched types'', level = ''error'',
         spans = [Span ''src/macros.rs'' 10 5 10 20 True
                    (Some (Expansion (Some (Span ''src/main.rs'' 3 5 3 12 False None)))),
                  Span ''src/lib.rs'' 7 1 7 4 False None],
         children = [], code = None\<rparr>)))
     \<noteq> spanLocation (Span ''src/macros.rs'' 10 5 10 20 True
                 (Some (Expansion (Some (Span ''src/main.rs'' 3 5 3 12 False None)))))"
  by (simp add: parseJson_def errorLocation_def spanLocation_def Let_def)

theorem parseJson_uses_primary_span_witness:
  "errorLocation (last (snd (parseJson []
        \<lparr>json_message = ''unused variable'', level = ''warning'',
         spans = [Span ''src/lib.rs'' 7 1 7 4 False None,
                  Span ''src/main.rs'' 3 5 3 12 True None,
                  Span ''src/util.rs'' 1 1 1 2 False None],
         children = [], code = None\<rparr>)))
     = (''src/main.rs'', 3, 5, 3, 12)
   \<and> parseJson []
        \<lparr>json_message = ''unused variable'', level = ''warning'',
         spans = [Span ''src/lib.rs'' 7 1 7 4 False None],
         children = [], code = None\<rparr> = (False, [])"
proof -
  let ?A = "Span ''src/main.rs'' 3 5 3 12 True None"
  let ?B = "Span ''src/lib.rs'' 7 1 7 4 False None"
  let ?C = "Span ''src/util.rs'' 1 1 1 2 False None"
  let ?j = "\<lparr>json_message = ''unused variable'', level = ''warning'',
         spans = [?B, ?A, ?C], children = [], code = None\<rparr>"
  let ?k = "\<lparr>json_message = ''unused variable'', level = ''warning'',
         spans = [?B], children = [], code = None\<rparr>"
  have "errorLocation (last (snd (parseJson [] ?j))) = spanLocation ?A"
    using parseJson_uses_primary_span [of ?j "[?B]" ?A "[?C]" "[]"]
    by (simp add: hasExpansionSpan_def)
  moreover have "parseJson [] ?k = (False, [])"
    using parseJson_uses_primary_span [of ?k "[]" ?A "[]" "[]"] by simp
  ultimately show ?thesis by (simp add: spanLocation_def)
qed

subsection \<open>Lines, chunks and batches\<close>

lemma splitLines_nonempty [simp]: "splitLines s \<noteq> []"
  by (induction s rule: splitLines.induct) (auto simp: neq_Nil_conv split: list.splits)

lemma consHead_nonempty [simp]: "consHead c ls \<noteq> []"
  by (cases ls) simp_all

lemma length_consHead: "ls \<noteq> [] \<Longrightarrow> length (consHead c ls) = length ls"
  by (cases ls) simp_all

lemma butlast_consHead: "2 \<le> length ls \<Longrightarrow> butlast (consHead c ls) = consHead c (butlast ls)"
  by (cases ls) (auto split: list.splits)

lemma consHead_append: "ls \<noteq> [] \<Longrightarrow> consHead c (ls @ ms) = consHead c ls @ ms"
  by (cases ls) simp_all

lemma splitLines_LF_length: "2 \<le> length (splitLines (xs @ [LF]))"
  by (induction xs rule: splitLines.induct) (auto simp: length_consHead)

lemma butlast_splitLines_LF_nonempty: "butlast (splitLines (xs @ [LF])) \<noteq> []"
  using splitLines_LF_length [of xs]
  by (cases "splitLines (xs @ [LF])") (auto split: list.splits)

lemma splitLines_append_LF:
  "splitLines (xs @ LF # ys) = butlast (splitLines (xs @ [LF])) @ splitLines ys"
proof (induction xs rule: splitLines.induct)
  case 1
  then show ?case by (cases ys) simp_all
next
  case (2 c)
  then show ?case by (cases ys) (auto)
next
  case (3 c d cs)
  show ?case
  proof (cases "c = CR \<and> d = LF")
    case True
    then show ?thesis using 3(1) by simp
  next
    case False
    note nf = False
    show ?thesis
    proof (cases "c = LF")
      case True
      then show ?thesis using 3(2) nf by simp
    next
      case False
      have ih: "splitLines ((d # cs) @ LF # ys) =
          butlast (splitLines ((d # cs) @ [LF])) @ splitLines ys"
        using 3(3) nf False by blast
      have "splitLines ((c # d # cs) @ LF # ys) = consHead c (splitLines ((d # cs) @ LF # ys))"
        using nf False by auto
      also have "\<dots> = consHead c (butlast (splitLines ((d # cs) @ [LF]))) @ splitLines ys"
        using ih butlast_splitLines_LF_nonempty [of "d # cs"] by (simp add: consHead_append)
      also have "consHead c (butlast (splitLines ((d # cs) @ [LF])))
          = butlast (consHead c (splitLines ((d # cs) @ [LF])))"
        using splitLines_LF_length [of "d # cs"] by (simp add: butlast_consHead)
      also have "consHead c (splitLines ((d # cs) @ [LF])) = splitLines ((c # d # cs) @ [LF])"
        using nf False by auto
      finally show ?thesis .
    qed
  qed
qed

lemma splitLines_LF_snoc: "splitLines (xs @ [LF]) = butlast (splitLines (xs @ [LF])) @ [[]]"
  using splitLines_append_LF [of xs "[]"] by simp

lemma endsWithNewline_iff: "endsWithNewline s \<longleftrightarrow> (\<exists>xs. s = xs @ [LF])"
  by (auto simp: endsWithNewline_def) (metis append_butlast_last_id)

lemma completeLines_append:
  "endsWithNewline x \<Longrightarrow> completeLines (x @ y) = completeLines x @ completeLines y"
proof -
  assume "endsWithNewline x"
  then obtain xs where xs: "x = xs @ [LF]" by (auto simp: endsWithNewline_iff)
  have "splitLines (x @ y) = butlast (splitLines x) @ splitLines y"
    unfolding xs using splitLines_append_LF [of xs y] by simp
  then show ?thesis
    by (simp add: completeLines_def butlast_append)
qed

lemma handleLine_empty [simp]: "handleLine m [] = m"
  by (simp add: handleLine_def)

lemma dataHandler_flush:
  "endsWithNewline c \<Longrightarrow>
   dataHandler m c = foldl handleLine (m\<lparr>dataBuffer := []\<rparr>) (completeLines (dataBuffer m @ c))"
proof -
  assume e: "endsWithNewline c"
  then obtain xs where xs: "c = xs @ [LF]" by (auto simp: endsWithNewline_iff)
  have "splitLines (dataBuffer m @ c) = completeLines (dataBuffer m @ c) @ [[]]"
    unfolding completeLines_def xs
    using splitLines_LF_snoc [of "dataBuffer m @ xs"] by simp
  then show ?thesis using e by (simp add: dataHandler_def Let_def)
qed

lemma foldl_handleLine_dataBuffer:
  "foldl handleLine (m\<lparr>dataBuffer := b\<rparr>) ls = (foldl handleLine m ls)\<lparr>dataBuffer := b\<rparr>"
proof (induction ls arbitrary: m)
  case Nil
  then show ?case by simp
next
  case (Cons l ls)
  have "handleLine (m\<lparr>dataBuffer := b\<rparr>) l = (handleLine m l)\<lparr>dataBuffer := b\<rparr>"
    by (simp add: handleLine_def split: list.splits)
  then show ?case using Cons.IH by simp
qed

lemma dataBuffer_foldl_handleLine [simp]:
  "dataBuffer (foldl handleLine m ls) = dataBuffer m"
proof (induction ls arbitrary: m)
  case Nil
  then show ?case by simp
next
  case (Cons l ls)
  have "dataBuffer (handleLine m l) = dataBuffer m"
    by (simp add: handleLine_def split: list.splits)
  then show ?case using Cons.IH by simp
qed

lemma endsWithNewline_append:
  "endsWithNewline (x @ y) \<longleftrightarrow> (if y = [] then endsWithNewline x else endsWithNewline y)"
  by (simp add: endsWithNewline_def)

lemma completeLines_Nil [simp]: "completeLines [] = []"
  by (simp add: completeLines_def)

lemma completeLines_append':
  "F = [] \<or> endsWithNewline F \<Longrightarrow> completeLines (F @ y) = completeLines F @ completeLines y"
  using completeLines_append [of F y] by auto

lemma chunks_invariant:
  "\<exists>F B. dataBuffer m @ concat cs = F @ B \<and> (F = [] \<or> endsWithNewline F)
       \<and> foldl dataHandler m cs = (foldl handleLine m (completeLines F))\<lparr>dataBuffer := B\<rparr>
       \<and> (endsWithNewline (concat cs) \<longrightarrow> B = [])"
proof (induction cs rule: rev_induct)
  case Nil
  have "dataBuffer m @ concat [] = [] @ dataBuffer m \<and> ([] = [] \<or> endsWithNewline [])
       \<and> foldl dataHandler m [] = (foldl handleLine m (completeLines []))\<lparr>dataBuffer := dataBuffer m\<rparr>
       \<and> (endsWithNewline (concat []) \<longrightarrow> dataBuffer m = [])"
    by (simp add: endsWithNewline_def)
  then show ?case by blast
next
  case (snoc c cs)
  then obtain F B where inv: "dataBuffer m @ concat cs = F @ B" "F = [] \<or> endsWithNewline F"
    "foldl dataHandler m cs = (foldl handleLine m (completeLines F))\<lparr>dataBuffer := B\<rparr>"
    "endsWithNewline (concat cs) \<longrightarrow> B = []"
    by blast
  let ?st = "foldl dataHandler m cs"
  show ?case
  proof (cases "endsWithNewline c")
    case True
    have "dataHandler ?st c = foldl handleLine (?st\<lparr>dataBuffer := []\<rparr>) (completeLines (B @ c))"
      using dataHandler_flush [OF True, of ?st] inv(3) by simp
    also have "\<dots> = (foldl handleLine m (completeLines F @ completeLines (B @ c)))\<lparr>dataBuffer := []\<rparr>"
      using inv(3) by (simp add: foldl_handleLine_dataBuffer)
    also have "completeLines F @ completeLines (B @ c) = completeLines (F @ B @ c)"
      using completeLines_append' [OF inv(2), of "B @ c"] by simp
    finally have st: "foldl dataHandler m (cs @ [c])
        = (foldl handleLine m (completeLines (F @ B @ c)))\<lparr>dataBuffer := []\<rparr>"
      by simp
    have "dataBuffer m @ concat (cs @ [c]) = (F @ B @ c) @ []"
      using inv(1) by simp
    moreover have "endsWithNewline (F @ B @ c)"
      using True by (auto simp: endsWithNewline_def)
    ultimately show ?thesis using st by blast
  next
    case False
    have st: "foldl dataHandler m (cs @ [c])
        = (foldl handleLine m (completeLines F))\<lparr>dataBuffer := B @ c\<rparr>"
      using False inv(3) by (simp add: dataHandler_def)
    have s: "dataBuffer m @ concat (cs @ [c]) = F @ (B @ c)"
      using inv(1) by simp
    have "endsWithNewline (concat (cs @ [c])) \<longrightarrow> B @ c = []"
      using False inv(4) by (auto simp: endsWithNewline_append split: if_splits)
    with st s inv(2) show ?thesis by blast
  qed
qed

lemma feed_chunks:
  assumes "endsWithNewline (concat cs)"
  shows "foldl dataHandler m cs
     = foldl handleLine (m\<lparr>dataBuffer := []\<rparr>) (completeLines (dataBuffer m @ concat cs))"
proof -
  from chunks_invariant [of m cs] assms obtain F where
    "dataBuffer m @ concat cs = F"
    "foldl dataHandler m cs = (foldl handleLine m (completeLines F))\<lparr>dataBuffer := []\<rparr>"
    by auto
  then show ?thesis by (simp add: foldl_handleLine_dataBuffer)
qed

lemma collectBatches_append:
  "collectBatches cur (l1 @ l2) =
     (fst (collectBatches cur l1) @ fst (collectBatches (snd (collectBatches cur l1)) l2),
      snd (collectBatches (snd (collectBatches cur l1)) l2))"
  by (induction l1 arbitrary: cur) simp_all

lemma foldl_handleLine:
  "foldl handleLine m ls =
     m\<lparr>commandCallbacks := drop (length (fst (collectBatches (linesBuffer m) ls))) (commandCallbacks m),
       invoked := invoked m @ zip (commandCallbacks m) (fst (collectBatches (linesBuffer m) ls)),
       linesBuffer := snd (collectBatches (linesBuffer m) ls)\<rparr>"
proof (induction ls arbitrary: m)
  case Nil
  then show ?case by simp
next
  case (Cons l ls)
  note IH = Cons.IH
  show ?case
  proof (cases "l = []")
    case True
    then show ?thesis using IH [of m] by simp
  next
    case False
    note ne = False
    show ?thesis
    proof (cases "startsWithEND l")
      case False
      then show ?thesis
        using ne IH [of "m\<lparr>linesBuffer := linesBuffer m @ [l]\<rparr>"]
        by (simp add: handleLine_def)
    next
      case True
      show ?thesis
      proof (cases "commandCallbacks m")
        case Nil
        then show ?thesis
          using ne True IH [of "m\<lparr>linesBuffer := []\<rparr>"]
          by (simp add: handleLine_def)
      next
        case (Cons callback rest)
        then show ?thesis
          using ne True
            IH [of "m\<lparr>commandCallbacks := rest,
               invoked := invoked m @ [(callback, linesBuffer m)], linesBuffer := []\<rparr>"]
          by (simp add: handleLine_def)
      qed
    qed
  qed
qed

lemma requestsOf_append: "requestsOf (xs @ ys) = requestsOf xs @ requestsOf ys"
  by (induction xs rule: requestsOf.induct) simp_all

lemma streamOf_append: "streamOf (xs @ ys) = streamOf xs @ streamOf ys"
  by (induction xs rule: streamOf.induct) simp_all

lemma causal_snoc:
  "causal (evs @ [e]) \<longleftrightarrow>
     causal evs \<and> length (responseBatches (streamOf (evs @ [e]))) \<le> length (requestsOf (evs @ [e]))"
  by (simp add: causal_def)

lemma zip_longer: "length ys \<le> length xs \<Longrightarrow> zip (xs @ zs) ys = zip xs ys"
  by (induction xs ys rule: list_induct2') simp_all

lemma zip_split:
  "length bs \<le> length R \<Longrightarrow> zip R (bs @ bs2) = zip R bs @ zip (drop (length bs) R) bs2"
proof -
  assume l: "length bs \<le> length R"
  have "zip R (bs @ bs2) = zip (take (length bs) R @ drop (length bs) R) (bs @ bs2)" by simp
  also have "\<dots> = zip (take (length bs) R) bs @ zip (drop (length bs) R) bs2"
    using l by (subst zip_append) simp_all
  also have "zip (take (length bs) R) bs = zip R bs"
    using zip_longer [of bs "take (length bs) R" "drop (length bs) R"] l by simp
  finally show ?thesis .
qed

lemma rpc_invariant:
  assumes "causal evs"
  shows "\<exists>F B. rpcInv m0 evs (rpc_run (start path m0) evs) F B"
  using assms
proof (induction evs rule: rev_induct)
  case Nil
  have "rpcInv m0 [] (rpc_run (start path m0) []) [] []"
    by (simp add: rpcInv_def rpc_run_def start_def endsWithNewline_def)
  then show ?case by blast
next
  case (snoc e evs)
  from snoc.prems have c: "causal evs"
    and le: "length (responseBatches (streamOf (evs @ [e]))) \<le> length (requestsOf (evs @ [e]))"
    by (simp_all add: causal_snoc)
  let ?st = "rpc_run (start path m0) evs"
  from snoc.IH [OF c] obtain F B where inv: "rpcInv m0 evs ?st F B" by blast
  let ?bs = "fst (collectBatches [] (completeLines F))"
  let ?R = "requestsOf evs"
  have run: "rpc_run (start path m0) (evs @ [e]) = rpc_step ?st e"
    by (simp add: rpc_run_def)
  show ?case
  proof (cases e)
    case (Request resolve command args)
    from inv obtain d where d: "racerDaemon ?st = Some d" by (auto simp: rpcInv_def)
    have "rpcInv m0 (evs @ [e]) (rpc_step ?st e) F B"
      using inv d Request
      by (simp add: rpcInv_def runCommand_def Let_def requestsOf_append streamOf_append
          zip_longer)
    then show ?thesis unfolding run by (intro exI)
  next
    case (Data c)
    show ?thesis
    proof (cases "endsWithNewline c")
      case False
      have "endsWithNewline (streamOf evs @ c) \<longrightarrow> B @ c = []"
      proof (cases "c = []")
        case True
        with inv show ?thesis by (simp add: rpcInv_def)
      next
        case False
        with \<open>\<not> endsWithNewline c\<close> show ?thesis by (simp add: endsWithNewline_def)
      qed
      then have "rpcInv m0 (evs @ [e]) (rpc_step ?st e) F (B @ c)"
        using inv Data False
        by (simp add: rpcInv_def dataHandler_def requestsOf_append streamOf_append)
      then show ?thesis unfolding run by (intro exI)
    next
      case True
      let ?F' = "F @ B @ c"
      have FB: "streamOf evs = F @ B" and Fe: "F = [] \<or> endsWithNewline F"
        and db: "dataBuffer ?st = B" and dm: "racerDaemon ?st \<noteq> None"
        and len: "length ?bs \<le> length ?R"
        and inv_invoked: "invoked ?st = invoked m0 @ zip ?R ?bs"
        and inv_cbs: "commandCallbacks ?st = drop (length ?bs) ?R"
        and inv_lb: "linesBuffer ?st = snd (collectBatches [] (completeLines F))"
        using inv by (simp_all add: rpcInv_def)
      let ?ls = "completeLines (B @ c)"
      let ?bs2 = "fst (collectBatches (linesBuffer ?st) ?ls)"
      have cl: "completeLines ?F' = completeLines F @ ?ls"
        using completeLines_append' [OF Fe, of "B @ c"] by simp
      have cb: "collectBatches [] (completeLines ?F')
          = (?bs @ ?bs2, snd (collectBatches (linesBuffer ?st) ?ls))"
        unfolding cl using inv_lb by (simp add: collectBatches_append)
      have s': "streamOf (evs @ [e]) = ?F'" and r': "requestsOf (evs @ [e]) = ?R"
        using Data FB by (simp_all add: streamOf_append requestsOf_append)
      have le': "length (?bs @ ?bs2) \<le> length ?R"
        using le cb unfolding s' r' responseBatches_def by simp
      have step: "rpc_step ?st e = foldl handleLine (?st\<lparr>dataBuffer := []\<rparr>) ?ls"
        using Data dataHandler_flush [OF True, of ?st] db by simp
      have e': "endsWithNewline ?F'"
        using True by (auto simp: endsWithNewline_def)
      have i': "invoked (rpc_step ?st e) = invoked m0 @ zip ?R (?bs @ ?bs2)"
        unfolding step
        by (subst foldl_handleLine) (simp add: inv_invoked inv_cbs zip_split [OF len])
      have c': "commandCallbacks (rpc_step ?st e) = drop (length (?bs @ ?bs2)) ?R"
        unfolding step
        by (subst foldl_handleLine) (simp add: inv_cbs add.commute)
      have l': "linesBuffer (rpc_step ?st e) = snd (collectBatches (linesBuffer ?st) ?ls)"
        unfolding step by (subst foldl_handleLine) simp
      have d1: "dataBuffer (rpc_step ?st e) = []"
        unfolding step by (subst foldl_handleLine) simp
      have d2: "racerDaemon (rpc_step ?st e) \<noteq> None"
        unfolding step using dm by (subst foldl_handleLine) simp
      have "rpcInv m0 (evs @ [e]) (rpc_step ?st e) ?F' []"
        unfolding rpcInv_def cb s' r'
        using e' i' c' l' d1 d2 le' by simp
      then show ?thesis unfolding run by (intro exI)
    qed
  qed
qed

lemma queue_order_step:
  "racerDaemon st \<noteq> None \<Longrightarrow>
   racerDaemon (rpc_step st e) \<noteq> None
   \<and> map fst (invoked (rpc_step st e)) @ commandCallbacks (rpc_step st e)
       = map fst (invoked st) @ commandCallbacks st @ requestsOf [e]"
proof (cases e)
  case (Request resolve command args)
  assume "racerDaemon st \<noteq> None"
  then show ?thesis using Request by (auto simp: runCommand_def Let_def)
next
  case (Data c)
  assume d: "racerDaemon st \<noteq> None"
  have fold: "racerDaemon (foldl handleLine m ls) = racerDaemon m
      \<and> map fst (invoked (foldl handleLine m ls)) @ commandCallbacks (foldl handleLine m ls)
        = map fst (invoked m) @ commandCallbacks m" for m :: "'a CompletionManager" and ls
    by (subst (1 2 3) foldl_handleLine)
      (simp add: zip_map_fst_snd map_fst_zip_take min_def take_all flip: take_map)
  show ?thesis
    using Data d fold [of "st\<lparr>dataBuffer := []\<rparr>"]
    by (simp add: dataHandler_def Let_def)
qed

lemma queue_order_run:
  "racerDaemon st \<noteq> None \<Longrightarrow>
   racerDaemon (rpc_run st evs) \<noteq> None
   \<and> map fst (invoked (rpc_run st evs)) @ commandCallbacks (rpc_run st evs)
       = map fst (invoked st) @ commandCallbacks st @ requestsOf evs"
proof (induction evs arbitrary: st)
  case Nil
  then show ?case by (simp add: rpc_run_def)
next
  case (Cons e evs)
  from queue_order_step [OF Cons.prems, of e]
  have a: "racerDaemon (rpc_step st e) \<noteq> None"
    and b: "map fst (invoked (rpc_step st e)) @ commandCallbacks (rpc_step st e)
       = map fst (invoked st) @ commandCallbacks st @ requestsOf [e]" by simp_all
  from Cons.IH [OF a] b show ?case
    using requestsOf_append [of "[e]" evs] by (simp add: rpc_run_def)
qed

lemma splitLines_line_LF:
  "LF \<notin> set l \<Longrightarrow> l = [] \<or> last l \<noteq> CR \<Longrightarrow> splitLines (l @ LF # rest) = l # splitLines rest"
proof (induction l rule: splitLines.induct)
  case 1
  then show ?case by (cases rest) simp_all
next
  case (2 c)
  then show ?case by (cases rest) auto
next
  case (3 c d cs)
  then have "splitLines ((d # cs) @ LF # rest) = (d # cs) # splitLines rest" by auto
  moreover have "c \<noteq> LF" "d \<noteq> LF" using 3(4) by auto
  ultimately show ?case by auto
qed

lemma splitLines_line_CRLF:
  "LF \<notin> set l \<Longrightarrow> splitLines (l @ CR # LF # rest) = l # splitLines rest"
proof (induction l rule: splitLines.induct)
  case 1
  then show ?case by simp
next
  case (2 c)
  then show ?case by auto
next
  case (3 c d cs)
  then have "splitLines ((d # cs) @ CR # LF # rest) = (d # cs) # splitLines rest" by auto
  moreover have "c \<noteq> LF" "d \<noteq> LF" using 3(4) by auto
  ultimately show ?case by auto
qed

text \<open>
  C5. Take any interleaving of requests and chunks of daemon output in which responses
  follow their requests, the output so far ending in a line terminator. Then the
  callbacks called are exactly the first requests in issue order, the \<open>i\<close>-th with
  the \<open>i\<close>-th batch of the stream; the remaining requests wait in the queue, in
  order. The batches are those of the joined stream, so the way the stream was cut
  into chunks plays no part. Without any assumption, callbacks are only ever taken
  from the head of the queue: those called, followed by those waiting, are the
  requests in issue order.
\<close>

theorem rpc_fifo:
  "(causal evs \<and> endsWithNewline (streamOf evs) \<longrightarrow>
      invoked (rpc_run (start path m0) evs)
        = invoked m0 @ zip (requestsOf evs) (responseBatches (streamOf evs))
      \<and> length (responseBatches (streamOf evs)) \<le> length (requestsOf evs)
      \<and> (\<forall>i < length (responseBatches (streamOf evs)).
            invoked (rpc_run (start path m0) evs) ! (length (invoked m0) + i)
              = (requestsOf evs ! i, responseBatches (streamOf evs) ! i))
      \<and> commandCallbacks (rpc_run (start path m0) evs)
          = drop (length (responseBatches (streamOf evs))) (requestsOf evs)
      \<and> (\<forall>evs'. causal evs' \<and> requestsOf evs' = requestsOf evs
             \<and> streamOf evs' = streamOf evs \<longrightarrow>
            invoked (rpc_run (start path m0) evs') = invoked (rpc_run (start path m0) evs)))
   \<and> map fst (invoked (rpc_run (start path m0) evs)) @ commandCallbacks (rpc_run (start path m0) evs)
       = map fst (invoked m0) @ requestsOf evs"
proof -
  let ?bs = "responseBatches (streamOf evs)"
  let ?R = "requestsOf evs"
  have main: "invoked (rpc_run (start path m0) evs') = invoked m0 @ zip (requestsOf evs') (responseBatches (streamOf evs'))
      \<and> length (responseBatches (streamOf evs')) \<le> length (requestsOf evs')
      \<and> commandCallbacks (rpc_run (start path m0) evs')
          = drop (length (responseBatches (streamOf evs'))) (requestsOf evs')"
    if "causal evs'" "endsWithNewline (streamOf evs')" for evs' :: "'a rpc_event list"
  proof -
    from rpc_invariant [OF that(1), of m0 path] obtain F B where
      "rpcInv m0 evs' (rpc_run (start path m0) evs') F B" by blast
    with that(2) show ?thesis
      by (simp add: rpcInv_def responseBatches_def)
  qed
  have idx: "invoked (rpc_run (start path m0) evs) ! (length (invoked m0) + i) = (?R ! i, ?bs ! i)"
    if "causal evs" "endsWithNewline (streamOf evs)" "i < length ?bs" for i
  proof -
    from main [OF that(1,2)] have
      eq: "invoked (rpc_run (start path m0) evs) = invoked m0 @ zip ?R ?bs"
      and le: "length ?bs \<le> length ?R" by simp_all
    show ?thesis using that(3) le by (simp add: eq nth_append)
  qed
  have inv': "invoked (rpc_run (start path m0) evs') = invoked (rpc_run (start path m0) evs)"
    if "causal evs" "endsWithNewline (streamOf evs)" "causal evs'"
      "requestsOf evs' = requestsOf evs" "streamOf evs' = streamOf evs" for evs'
    using main [OF that(1,2)] main [of evs'] that(2,3,4,5) by simp
  have order: "map fst (invoked (rpc_run (start path m0) evs)) @ commandCallbacks (rpc_run (start path m0) evs)
       = map fst (invoked m0) @ requestsOf evs"
    using queue_order_run [of "start path m0" evs] by (simp add: start_def)
  show ?thesis
    using main [of evs] idx inv' order by blast
qed

theorem rpc_fifo_witness:
  "causal [Request (1::nat) ''complete'' [''1''], Request 2 ''complete'' [''2''],
           Data (''MATCH a'' @ [LF] @ ''EN''),
           Data (''D'' @ [CR, LF] @ ''MATCH b'' @ [LF] @ ''END'' @ [LF])]
   \<and> endsWithNewline (streamOf
          [Request (1::nat) ''complete'' [''1''], Request 2 ''complete'' [''2''],
           Data (''MATCH a'' @ [LF] @ ''EN''),
           Data (''D'' @ [CR, LF] @ ''MATCH b'' @ [LF] @ ''END'' @ [LF])])
   \<and> invoked (rpc_run (start ''racer'' initialManager)
          [Request (1::nat) ''complete'' [''1''], Request 2 ''complete'' [''2''],
           Data (''MATCH a'' @ [LF] @ ''EN''),
           Data (''D'' @ [CR, LF] @ ''MATCH b'' @ [LF] @ ''END'' @ [LF])])
       = [(1, [''MATCH a'']), (2, [''MATCH b''])]"
proof -
  let ?evs = "[Request (1::nat) ''complete'' [''1''], Request 2 ''complete'' [''2''],
           Data (''MATCH a'' @ [LF] @ ''EN''),
           Data (''D'' @ [CR, LF] @ ''MATCH b'' @ [LF] @ ''END'' @ [LF])]"
  have c: "causal ?evs" by code_simp
  have e: "endsWithNewline (streamOf ?evs)" by code_simp
  have r: "requestsOf ?evs = [1, 2]" by simp
  have b: "responseBatches (streamOf ?evs) = [[''MATCH a''], [''MATCH b'']]" by code_simp
  have i: "invoked (initialManager :: nat CompletionManager) = []"
    by (simp add: initialManager_def)
  have "invoked (rpc_run (start ''racer'' initialManager) ?evs)
      = [(1, [''MATCH a'']), (2, [''MATCH b''])]"
    using rpc_fifo [of ?evs "''racer''" "initialManager :: nat CompletionManager"] c e
    unfolding r b i by simp
  with c e show ?thesis by blast
qed

lemma foldl_dataHandlerBuffer:
  "foldl (dataHandlerBuffer toString) m bufs = foldl dataHandler m (map toString bufs)"
  by (induction bufs arbitrary: m) (simp_all add: dataHandlerBuffer_def)

text \<open>
  C6, as amended. The chunks are the decoded ones, the strings \<^verbatim>\<open>data.toString()\<close>
  gives, and the stream is their text joined: a way of splitting is a way of cutting
  that text. For a text that ends in a line terminator, feeding its chunks to
  \<^verbatim>\<open>dataHandler\<close> has the effect of handling the complete lines of the buffered text
  followed by the stream, once each and in order, and leaves the buffer empty; so two
  ways of cutting the same text end in the same state, and so do two sequences of
  buffers whose decoded chunks join to the same text. A chunk that does not end in a
  line terminator is appended to the buffer and no line is handled, whatever the
  chunk contains. A line feed ends a line, and so does a carriage return followed by
  a line feed.
\<close>

theorem dataHandler_chunking_invariant:
  "(endsWithNewline (concat chunks) \<longrightarrow>
      foldl dataHandler m chunks
        = foldl handleLine (m\<lparr>dataBuffer := []\<rparr>) (completeLines (dataBuffer m @ concat chunks)))
   \<and> (endsWithNewline (concat chunks) \<and> concat chunks' = concat chunks \<longrightarrow>
        foldl dataHandler m chunks' = foldl dataHandler m chunks)
   \<and> (\<not> endsWithNewline c \<longrightarrow> dataHandler m c = m\<lparr>dataBuffer := dataBuffer m @ c\<rparr>)
   \<and> (LF \<notin> set l \<and> (l = [] \<or> last l \<noteq> CR) \<longrightarrow>
        completeLines (l @ [LF] @ rest) = l # completeLines rest)
   \<and> (LF \<notin> set l \<longrightarrow> completeLines (l @ [CR, LF] @ rest) = l # completeLines rest)
   \<and> (endsWithNewline (concat (map toString bufs))
        \<and> concat (map toString bufs') = concat (map toString bufs) \<longrightarrow>
        foldl (dataHandlerBuffer toString) m bufs' = foldl (dataHandlerBuffer toString) m bufs
        \<and> foldl (dataHandlerBuffer toString) m bufs
            = foldl handleLine (m\<lparr>dataBuffer := []\<rparr>)
                (completeLines (dataBuffer m @ concat (map toString bufs))))"
proof -
  have a: "foldl dataHandler m cs
        = foldl handleLine (m\<lparr>dataBuffer := []\<rparr>) (completeLines (dataBuffer m @ concat cs))"
    if "endsWithNewline (concat cs)" for cs
    using feed_chunks [OF that] .
  have b: "foldl dataHandler m chunks' = foldl dataHandler m chunks"
    if "endsWithNewline (concat chunks)" "concat chunks' = concat chunks"
    using a [of chunks] a [of chunks'] that by simp
  have c: "dataHandler m c = m\<lparr>dataBuffer := dataBuffer m @ c\<rparr>" if "\<not> endsWithNewline c"
    using that by (simp add: dataHandler_def)
  have d: "completeLines (l @ [LF] @ rest) = l # completeLines rest"
    if "LF \<notin> set l" "l = [] \<or> last l \<noteq> CR"
    using splitLines_line_LF [OF that, of rest] by (simp add: completeLines_def)
  have e: "completeLines (l @ [CR, LF] @ rest) = l # completeLines rest" if "LF \<notin> set l"
    using splitLines_line_CRLF [OF that, of rest] by (simp add: completeLines_def)
  have f: "foldl (dataHandlerBuffer toString) m bufs' = foldl (dataHandlerBuffer toString) m bufs
        \<and> foldl (dataHandlerBuffer toString) m bufs
            = foldl handleLine (m\<lparr>dataBuffer := []\<rparr>)
                (completeLines (dataBuffer m @ concat (map toString bufs)))"
    if "endsWithNewline (concat (map toString bufs))"
      "concat (map toString bufs') = concat (map toString bufs)"
    using a [of "map toString bufs"] a [of "map toString bufs'"] that
    by (simp add: foldl_dataHandlerBuffer)
  from a [of chunks] b c d e f show ?thesis by blast
qed

theorem dataHandler_chunking_invariant_witness:
  "endsWithNewline (concat [''ab'', ''c'' @ [CR], [LF] @ ''d'' @ [LF]])
   \<and> concat [''abc'' @ [CR, LF], ''d'' @ [LF]] = concat [''ab'', ''c'' @ [CR], [LF] @ ''d'' @ [LF]]
   \<and> foldl dataHandler (initialManager :: nat CompletionManager)
        [''ab'', ''c'' @ [CR], [LF] @ ''d'' @ [LF]]
       = foldl handleLine initialManager [''abc'', ''d'']
   \<and> foldl dataHandler (initialManager :: nat CompletionManager)
        [''abc'' @ [CR, LF], ''d'' @ [LF]]
       = foldl dataHandler initialManager [''ab'', ''c'' @ [CR], [LF] @ ''d'' @ [LF]]
   \<and> endsWithNewline (concat (map (map char_of)
        [[97, 98], [99, 13], [10, 100, 10 :: nat]]))
   \<and> concat (map (map char_of) [[97, 98, 99, 13, 10], [100, 10 :: nat]])
       = concat (map (map char_of) [[97, 98], [99, 13], [10, 100, 10 :: nat]])
   \<and> foldl (dataHandlerBuffer (map char_of)) (initialManager :: nat CompletionManager)
        [[97, 98, 99, 13, 10], [100, 10 :: nat]]
       = foldl (dataHandlerBuffer (map char_of)) initialManager
           [[97, 98], [99, 13], [10, 100, 10 :: nat]]"
proof -
  let ?cs = "[''ab'', ''c'' @ [CR], [LF] @ ''d'' @ [LF]]"
  let ?cs' = "[''abc'' @ [CR, LF], ''d'' @ [LF]]"
  let ?m = "initialManager :: nat CompletionManager"
  have e: "endsWithNewline (concat ?cs)" by (simp add: endsWithNewline_def)
  have q: "concat ?cs' = concat ?cs" by simp
  have l: "completeLines (dataBuffer ?m @ concat ?cs) = [''abc'', ''d'']"
    by (simp add: completeLines_def initialManager_def)
  have u: "?m\<lparr>dataBuffer := []\<rparr> = ?m" by (simp add: initialManager_def)
  from dataHandler_chunking_invariant [of ?cs ?m ?cs'] e q
  have "foldl dataHandler ?m ?cs
          = foldl handleLine (?m\<lparr>dataBuffer := []\<rparr>) (completeLines (dataBuffer ?m @ concat ?cs))"
    and "foldl dataHandler ?m ?cs' = foldl dataHandler ?m ?cs"
    by blast+
  then have first: "foldl dataHandler ?m ?cs = foldl handleLine ?m [''abc'', ''d'']"
    and second: "foldl dataHandler ?m ?cs' = foldl dataHandler ?m ?cs"
    unfolding l u by simp_all
  let ?bs = "[[97, 98], [99, 13], [10, 100, 10 :: nat]]"
  let ?bs' = "[[97, 98, 99, 13, 10], [100, 10 :: nat]]"
  have be: "endsWithNewline (concat (map (map char_of) ?bs))" by code_simp
  have bq: "concat (map (map char_of) ?bs') = concat (map (map char_of) ?bs)" by simp
  from dataHandler_chunking_invariant
    [of ?cs ?m ?cs' _ _ _ "map char_of" ?bs ?bs'] be bq
  have third: "foldl (dataHandlerBuffer (map char_of)) ?m ?bs'
      = foldl (dataHandlerBuffer (map char_of)) ?m ?bs"
    by blast
  from e q first second be bq third show ?thesis by blast
qed

text \<open>
  C6 as stated fails for a stream that does not end in a terminator: of the stream
  \<^verbatim>\<open>a\nb\<close>, cut after the terminator, the line \<^verbatim>\<open>a\<close> is handled; fed as one chunk,
  nothing is.
\<close>

theorem dataHandler_unterminated_stream_counterexample:
  "concat [[CHR ''a'', LF], ''b''] = concat [[CHR ''a'', LF, CHR ''b'']]
   \<and> linesBuffer (foldl dataHandler (initialManager :: nat CompletionManager)
        [[CHR ''a'', LF], ''b'']) = [''a'']
   \<and> linesBuffer (foldl dataHandler (initialManager :: nat CompletionManager)
        [[CHR ''a'', LF, CHR ''b'']]) = []"
  by (simp add: dataHandler_def endsWithNewline_def handleLine_def startsWithEND_def
      initialManager_def Let_def)

subsection \<open>The end column in the new human-readable format\<close>

text \<open>Whenever the loop returns records, each ends on its start line, at its start
  column plus the length of a caret run.\<close>

lemma parseNewHumanReadableLoop_records:
  assumes run: "parseNewHumanReadableLoop o1 o2 errs = Some r"
  shows "list_all recordShape errs \<longrightarrow> (case r of Inl err \<Rightarrow> True | Inr res \<Rightarrow> list_all recordShape res)"
proof (rule parseNewHumanReadableLoop.raw_induct
    [where P = "\<lambda>o1 o2 errs r. list_all recordShape errs \<longrightarrow>
        (case r of Inl err \<Rightarrow> True | Inr res \<Rightarrow> list_all recordShape res)", OF _ run])
  fix loop :: "string \<Rightarrow> string \<Rightarrow> RustError list \<Rightarrow> (js_error + RustError list) option"
  fix out1 out2 errors r
  assume IH: "\<And>a b c y. loop a b c = Some y \<Longrightarrow>
      list_all recordShape c \<longrightarrow> (case y of Inl err \<Rightarrow> True | Inr res \<Rightarrow> list_all recordShape res)"
  assume body: "(case exec newErrorRegex out1 of None \<Rightarrow> Some (Inr errors)
      | Some (rest1, blk) \<Rightarrow>
          Option.bind (blockMessage blk)
           (\<lambda>msg. case exec newErrorRange out2 of
                  None \<Rightarrow> Some (Inl TypeError)
                  | Some (rest2, rng) \<Rightarrow>
                      case group rng 1 of
                      None \<Rightarrow> Some (Inl TypeError)
                      | Some carets \<Rightarrow>
                          loop rest1 rest2
                           (errors @
                            [\<lparr>filename = groupText blk 4,
                                startLine = Number (groupText blk 5),
                                startCharacter = Number (groupText blk 6),
                                endLine = Number (groupText blk 5),
                                endCharacter = Number (groupText blk 6) + int (length carets),
                                err_severity = groupText blk 1,
                                err_message = msg\<rparr>]))) = Some r"
  show "list_all recordShape errors \<longrightarrow>
      (case r of Inl err \<Rightarrow> True | Inr res \<Rightarrow> list_all recordShape res)"
  proof
    assume ok: "list_all recordShape errors"
    show "case r of Inl err \<Rightarrow> True | Inr res \<Rightarrow> list_all recordShape res"
    proof (cases "exec newErrorRegex out1")
      case None
      with body ok show ?thesis by auto
    next
      case (Some a)
      obtain rest1 blk where a: "a = (rest1, blk)" by (cases a)
      from body Some a obtain msg where msg: "blockMessage blk = Some msg"
        by (auto simp: Option.bind_eq_Some_conv)
      note m1 = Some
      show ?thesis
      proof (cases "exec newErrorRange out2")
        case None
        with body m1 a msg show ?thesis by auto
      next
        case (Some b)
        obtain rest2 rng where b: "b = (rest2, rng)" by (cases b)
        note m2 = Some
        show ?thesis
        proof (cases "group rng 1")
          case None
          with body m1 a msg m2 b show ?thesis by auto
        next
          case (Some carets)
          let ?e = "\<lparr>filename = groupText blk 4,
                                startLine = Number (groupText blk 5),
                                startCharacter = Number (groupText blk 6),
                                endLine = Number (groupText blk 5),
                                endCharacter = Number (groupText blk 6) + int (length carets),
                                err_severity = groupText blk 1,
                                err_message = msg\<rparr>"
          from body m1 a msg m2 b Some
          have "loop rest1 rest2 (errors @ [?e]) = Some r" by simp
          moreover have "list_all recordShape (errors @ [?e])"
            using ok by (simp add: recordShape_def)
          ultimately show ?thesis using IH by blast
        qed
      qed
    qed
  qed
qed

text \<open>
  C9. In the new human-readable mode the record of a matched block ends on its start
  line, at its start column plus the width of a caret run. The run should be the
  block's own; the loop takes the \<open>k\<close>-th run of the whole output for the \<open>k\<close>-th
  block, which is another block's run when blocks and caret lines are not one to one.
  In the output below the first block has caret lines under two of its source lines.
  The block pattern matches the two blocks, the second being the text that starts at
  \<^verbatim>\<open>error: b\<close>, whose own and only caret run is \<^verbatim>\<open>^^^\<close>; yet the record of the
  second block ends at column 1 + 2, from the second caret line of the first block,
  not at column 1 + 3.
\<close>

theorem parseNewHumanReadable_pairs_carets_by_position:
  "parseNewHumanReadable []
     (''error: a'' @ [LF] @ '' --> f.rs:1:1'' @ [LF] @ ''  |'' @ [LF]
      @ ''1 | x'' @ [LF] @ ''  | ^'' @ [LF] @ ''2 | yy'' @ [LF] @ ''  | ^^'' @ [LF]
      @ ''error: b'' @ [LF] @ '' --> f.rs:5:1'' @ [LF] @ ''  |'' @ [LF]
      @ ''5 | zzz'' @ [LF] @ ''  | ^^^'' @ [LF])
   = Some (Inr [\<lparr>filename = ''f.rs'', startLine = 1, startCharacter = 1,
                  endLine = 1, endCharacter = 2, err_severity = ''error'',
                  err_message = ''a''\<rparr>,
                \<lparr>filename = ''f.rs'', startLine = 5, startCharacter = 1,
                  endLine = 5, endCharacter = 3, err_severity = ''error'',
                  err_message = ''b''\<rparr>])
   \<and> map_option fst (exec newErrorRegex
        (''error: a'' @ [LF] @ '' --> f.rs:1:1'' @ [LF] @ ''  |'' @ [LF]
         @ ''1 | x'' @ [LF] @ ''  | ^'' @ [LF] @ ''2 | yy'' @ [LF] @ ''  | ^^'' @ [LF]
         @ ''error: b'' @ [LF] @ '' --> f.rs:5:1'' @ [LF] @ ''  |'' @ [LF]
         @ ''5 | zzz'' @ [LF] @ ''  | ^^^'' @ [LF]))
     = Some (''error: b'' @ [LF] @ '' --> f.rs:5:1'' @ [LF] @ ''  |'' @ [LF]
             @ ''5 | zzz'' @ [LF] @ ''  | ^^^'' @ [LF])
   \<and> exec newErrorRange
        (''error: b'' @ [LF] @ '' --> f.rs:5:1'' @ [LF] @ ''  |'' @ [LF]
         @ ''5 | zzz'' @ [LF] @ ''  | ^^^'' @ [LF])
     = Some ([LF], [(1, ''^^^'')])"
  by code_simp

text \<open>
  A block with no caret line, where no caret run is left in the output: the block
  pattern matches, \<^verbatim>\<open>range\<close> is \<^verbatim>\<open>null\<close>, and \<^verbatim>\<open>range[1]\<close> throws.
\<close>

lemma parseNewHumanReadable_block_without_carets:
  "parseNewHumanReadable [] (''error: a'' @ [LF] @ '' --> f.rs:1:1'' @ [LF] @ [LF])
     = Some (Inl TypeError)"
  by code_simp


end
